theory Spec2Isabelle
  imports Complex_Main "HOL-Library.Multiset" "HOL-Library.Log_Nat"
begin

section \<open>Numbers\<close>

text \<open>
  A number of the host language is an IEEE 754 double: a finite value, which is a
  rational, the negative zero, one of the two infinities, or NaN. \<open>Fin q\<close> stands for
  the double of value \<open>q\<close> (\<open>Fin 0\<close> is the positive zero); it is a number of the
  language when \<open>q\<close> is representable, that is when \<open>round64 q = Fin q\<close>.
\<close>

datatype number = Fin rat | NegZero | PosInfinity | NegInfinity | NaN

text \<open>The exponent of a positive rational: \<open>2 powi ilog2 x \<le> x < 2 powi (ilog2 x + 1)\<close>.\<close>

definition ilog2 :: "rat \<Rightarrow> int" where
  "ilog2 x = (if 1 \<le> x then bitlen \<lfloor>x\<rfloor> - 1 else - bitlen (\<lceil>1 / x\<rceil> - 1))"

text \<open>The nearest integer, a tie going to the even one.\<close>

definition round_half_even :: "rat \<Rightarrow> int" where
  "round_half_even s =
     (let f = \<lfloor>s\<rfloor>; d = s - of_int f
      in if d < 1 / 2 \<or> (d = 1 / 2 \<and> even f) then f else f + 1)"

text \<open>
  The double that an exact result \<open>x\<close> is rounded to (round to nearest, ties to even):
  the significand has 53 bits, so the doubles around \<open>x\<close> are the multiples of
  \<open>2 powi e\<close> with \<open>e = ilog2 \<bar>x\<bar> - 52\<close>, and of \<open>2 powi (- 1074)\<close> in the subnormal
  range; a result of magnitude \<open>2 ^ 1024\<close> or more overflows to an infinity, and a
  negative result that rounds to zero is the negative zero.
\<close>

definition round64 :: "rat \<Rightarrow> number" where
  "round64 x =
     (if x = 0 then Fin 0
      else
        let e = max (ilog2 \<bar>x\<bar> - 52) (- 1074);
            y = of_int (round_half_even (x / 2 powi e)) * 2 powi e
        in if y = 0 then (if x < 0 then NegZero else Fin 0)
           else if 2 ^ 1024 \<le> \<bar>y\<bar> then (if x < 0 then NegInfinity else PosInfinity)
           else Fin y)"

text \<open>\<open>x + 1\<close> on numbers.\<close>

fun plus_one :: "number \<Rightarrow> number" where
  "plus_one (Fin q) = round64 (q + 1)"
| "plus_one NegZero = Fin 1"
| "plus_one PosInfinity = PosInfinity"
| "plus_one NegInfinity = NegInfinity"
| "plus_one NaN = NaN"

text \<open>\<open>a <= b\<close> on numbers: false when either side is NaN, and the two zeros are
  equal.\<close>

fun num_le :: "number \<Rightarrow> number \<Rightarrow> bool" where
  "num_le NaN b = False"
| "num_le a NaN = False"
| "num_le NegInfinity b = True"
| "num_le a PosInfinity = True"
| "num_le PosInfinity b = False"
| "num_le a NegInfinity = False"
| "num_le (Fin p) (Fin q) = (p \<le> q)"
| "num_le (Fin p) NegZero = (p \<le> 0)"
| "num_le NegZero (Fin q) = (0 \<le> q)"
| "num_le NegZero NegZero = True"

text \<open>
  The offsets of the parser's tokens are integers. \<open>plus_one_offset n\<close> is \<open>n + 1\<close> as
  the host computes it on the double of integer value \<open>n\<close>: an integer again, \<open>n + 1\<close>
  itself up to \<open>2 ^ 53\<close> in magnitude and the nearest double beyond. The sum stays
  finite below \<open>2 ^ 1023\<close>; the integer \<open>n + 1\<close> stands for a sum that overflows.
\<close>

definition plus_one_offset :: "int \<Rightarrow> int" where
  "plus_one_offset n = (case plus_one (Fin (of_int n)) of Fin q \<Rightarrow> \<lfloor>q\<rfloor> | _ \<Rightarrow> n + 1)"

section \<open>Host-language values and failures\<close>

text \<open>
  The token constructor inspects the dynamic type of what it is given, so its arguments
  are JavaScript values.
\<close>

datatype jsval = JUndefined | JNull | JBool bool | JNum number | JStr string

text \<open>\<open>isString\<close> and \<open>isNumber\<close> are imported from the \<open>substance\<close> package:
  they test the dynamic type of their argument, so every number passes \<open>isNumber\<close>,
  NaN and the infinities included.\<close>

definition isString :: "jsval \<Rightarrow> bool" where
  "isString v = (case v of JStr _ \<Rightarrow> True | _ \<Rightarrow> False)"

definition isNumber :: "jsval \<Rightarrow> bool" where
  "isNumber v = (case v of JNum _ \<Rightarrow> True | _ \<Rightarrow> False)"

text \<open>A thrown value: the \<open>Error('Illegal argument: ...')\<close> of the token constructor
  (with the name of the offending parameter), or the \<open>TypeError\<close> the runtime raises
  when a property of \<open>undefined\<close> is read.\<close>

datatype error = TypeError | IllegalArgument string

section \<open>Tokens\<close>

text \<open>The object handed to \<open>new Token(type, symbol)\<close>: its \<open>start\<close>, \<open>stop\<close> and
  \<open>text\<close> properties (\<open>text\<close> may be missing).\<close>

record raw_symbol =
  raw_start :: jsval
  raw_stop :: jsval
  raw_text :: "string option"

record token =
  tok_type :: string
  tok_start :: number
  tok_end :: number
  tok_text :: "string option"

text \<open>
  \<^verbatim>\<open>
  constructor (type, symbol) {
    const start = symbol.start
    const stop = symbol.stop
    if (!isString(type)) throw new Error('Illegal argument: "type" must be a string')
    if (!isNumber(start)) throw new Error('Illegal argument: "start" must be a number')
    if (!isNumber(stop)) throw new Error('Illegal argument: "stop" must be a number')
    this.type = type; this.start = start
    this.end = stop + 1
    this.text = symbol.text
  }
  \<close>
  An absent \<open>symbol\<close> (\<open>None\<close>) makes the first line raise a \<open>TypeError\<close>.
  \<open>start\<close> is stored as it is, and \<open>stop + 1\<close> is the addition of two numbers.
\<close>

definition Token :: "jsval \<Rightarrow> raw_symbol option \<Rightarrow> error + token" where
  "Token type symbol =
     (case symbol of
        None \<Rightarrow> Inl TypeError
      | Some sy \<Rightarrow>
          (case type of
             JStr ty \<Rightarrow>
               (case raw_start sy of
                  JNum start \<Rightarrow>
                    (case raw_stop sy of
                       JNum stop \<Rightarrow>
                         Inr \<lparr>tok_type = ty, tok_start = start, tok_end = plus_one stop,
                              tok_text = raw_text sy\<rparr>
                     | _ \<Rightarrow> Inl (IllegalArgument ''stop''))
                | _ \<Rightarrow> Inl (IllegalArgument ''start''))
           | _ \<Rightarrow> Inl (IllegalArgument ''type'')))"

section \<open>The concrete syntax tree\<close>

text \<open>A terminal symbol of the parser: inclusive \<open>start\<close> and \<open>stop\<close> offsets and its
  text.\<close>

record symbol =
  sym_start :: int
  sym_stop :: int
  sym_text :: string

definition raw_of :: "symbol \<Rightarrow> raw_symbol" where
  "raw_of sy = \<lparr>raw_start = JNum (Fin (of_int (sym_start sy))),
               raw_stop = JNum (Fin (of_int (sym_stop sy))),
               raw_text = Some (sym_text sy)\<rparr>"

text \<open>The payload a parse tree node carries in \<open>exception\<close> when the grammar failed
  there: an object (always truthy), described by a text.\<close>

datatype exn = RecognitionException string

text \<open>
  A node of the parse tree, with the properties the builder reads:
  \<open>type\<close> (the empty string when the node has none: it matches no case label),
  \<open>children\<close>, the \<open>start\<close> and \<open>stop\<close> tokens, \<open>symbol\<close> (terminal nodes),
  the result of \<open>getText()\<close>, \<open>exception\<close>, and the labelled parts \<open>name\<close>,
  \<open>args\<close>, \<open>namedArgs\<close>, \<open>keys\<close>, \<open>vals\<close> and \<open>items\<close>. \<open>None\<close> is an absent
  (\<open>undefined\<close> or \<open>null\<close>) property.
\<close>

datatype cst = Cst
  (ctype: string)
  (children: "cst list")
  (cstart: "symbol option")
  (cstop: "symbol option")
  (csymbol: "symbol option")
  (getText: string)
  (cexception: "exn option")
  (cname: "symbol option")
  (cargs: "cst option")
  (cnamedArgs: "cst option")
  (ckeys: "symbol option list")
  (cvals: "cst option list")
  (citems: "cst list option")

text \<open>\<open>xs[i]\<close>: reading past the end of an array yields \<open>undefined\<close>.\<close>

definition nth_opt :: "'a list \<Rightarrow> nat \<Rightarrow> 'a option" where
  "nth_opt xs i = (if i < length xs then Some (xs ! i) else None)"

section \<open>The node model\<close>

text \<open>The message of an error node: the parser's exception payload or a literal text.\<close>

datatype message = Payload exn | Text string

text \<open>
  Modelled from the spec: the node classes imported from \<open>./Nodes\<close> are not part of the
  sources. Each constructor stores the \<open>id\<close>, \<open>start\<close> and \<open>end\<close> it is given (an
  undefined offset is \<open>None\<close>) followed by the fields of the spec's data model, in the
  order of the constructor calls of the builder. A number node keeps the literal text
  that \<open>Number(...)\<close> is applied to. A function call whose \<open>args\<close> or \<open>namedArgs\<close> are
  not passed has the empty sequence there.
\<close>

datatype node =
    Definition (node_id: nat) (node_start: "int option") (node_end: "int option")
      string node
  | NumberNode (node_id: nat) (node_start: "int option") (node_end: "int option") string
  | StringNode (node_id: nat) (node_start: "int option") (node_end: "int option") string
  | BooleanNode (node_id: nat) (node_start: "int option") (node_end: "int option") bool
  | ArrayNode (node_id: nat) (node_start: "int option") (node_end: "int option")
      "node list"
  | ObjectNode (node_id: nat) (node_start: "int option") (node_end: "int option")
      "(string \<times> node) list"
  | Var (node_id: nat) (node_start: "int option") (node_end: "int option") string
  | FunctionCall (node_id: nat) (node_start: "int option") (node_end: "int option")
      string "node list" "node list"
  | NamedArgument (node_id: nat) (node_start: "int option") (node_end: "int option")
      string node
  | PipeOp (node_id: nat) (node_start: "int option") (node_end: "int option") node node
  | ErrorNode (node_id: nat) (node_start: "int option") (node_end: "int option") message
  | EmptyArgument (node_id: nat) (node_start: "int option") (node_end: "int option")

section \<open>The tree builder\<close>

record state =
  nodeId :: nat
  nodes :: "node list"
  inputs :: "node list"
  tokens :: "token list"

text \<open>
  \<^verbatim>\<open>
  function _getStartStop (n) {
    if (n.start) {
      if (n.stop) return [n.start.start, n.stop.stop + 1]
      else return [n.start.start, n.start.stop + 1]
    } else if (n.symbol) return [n.symbol.start, n.symbol.stop + 1]
    else return [undefined, undefined]
  }
  \<close>
  The offsets are those of the parser's tokens, integers, and \<open>+ 1\<close> is the host's
  addition on them.
\<close>

definition getStartStop :: "cst \<Rightarrow> int option \<times> int option" where
  "getStartStop n =
     (case cstart n of
        Some s \<Rightarrow>
          (case cstop n of
             Some e \<Rightarrow> (Some (sym_start s), Some (plus_one_offset (sym_stop e)))
           | None \<Rightarrow> (Some (sym_start s), Some (plus_one_offset (sym_stop s))))
      | None \<Rightarrow>
          (case csymbol n of
             Some y \<Rightarrow> (Some (sym_start y), Some (plus_one_offset (sym_stop y)))
           | None \<Rightarrow> (None, None)))"

text \<open>\<open>state.tokens.push(t)\<close>.\<close>

definition push_token :: "token \<Rightarrow> state \<Rightarrow> state" where
  "push_token t st = st\<lparr>tokens := tokens st @ [t]\<rparr>"

text \<open>The effect of \<open>state.nodeId++\<close> on the state (its value is the old
  \<open>nodeId\<close>).\<close>

definition next_id :: "state \<Rightarrow> state" where
  "next_id st = st\<lparr>nodeId := Suc (nodeId st)\<rparr>"

text \<open>The end of \<open>createFromAST\<close>: \<open>state.nodes.push(node); return node\<close>.\<close>

definition push_node :: "node \<Rightarrow> state \<Rightarrow> error + (node \<times> state)" where
  "push_node n st = Inr (n, st\<lparr>nodes := nodes st @ [n]\<rparr>)"

text \<open>\<open>str.slice(1, -1)\<close>: the string without its first and last character.\<close>

definition slice_1_m1 :: "string \<Rightarrow> string" where
  "slice_1_m1 s = butlast (tl s)"

text \<open>The case labels of the unary and of the binary operators.\<close>

definition unary_ops :: "string list" where
  "unary_ops = [''not'', ''positive'', ''negative'']"

definition binary_ops :: "string list" where
  "binary_ops = [''pow'', ''multiply'', ''divide'', ''remainder'', ''add'', ''subtract'',
     ''less'', ''less_or_equal'', ''greater'', ''greater_or_equal'', ''equal'',
     ''not_equal'', ''and'', ''or'']"

definition number_kinds :: "string list" where
  "number_kinds = [''int'', ''float'', ''number'']"

text \<open>
  The \<open>switch (ast.type)\<close> of \<open>createFromAST\<close>: \<open>kind_of\<close> matches the type of a node
  against the case labels, in the order of the source; labels that share a body are one
  kind, and \<open>K_default\<close> is the \<open>default:\<close> label.
\<close>

datatype kind =
    K_evaluation | K_definition | K_simple | K_select_id | K_select_expr | K_unary | K_binary
  | K_pipe | K_number | K_boolean | K_string | K_array | K_object | K_var | K_group
  | K_unwrap_call | K_call | K_named_argument | K_default

definition kind_of :: "string \<Rightarrow> kind" where
  "kind_of t =
     (if t = ''evaluation'' then K_evaluation
      else if t = ''definition'' then K_definition
      else if t = ''simple'' then K_simple
      else if t = ''select_id'' then K_select_id
      else if t = ''select_expr'' then K_select_expr
      else if t \<in> set unary_ops then K_unary
      else if t \<in> set binary_ops then K_binary
      else if t = ''pipe'' then K_pipe
      else if t \<in> set number_kinds then K_number
      else if t = ''boolean'' then K_boolean
      else if t = ''string'' then K_string
      else if t = ''array'' then K_array
      else if t = ''object'' then K_object
      else if t = ''var'' then K_var
      else if t = ''group'' then K_group
      else if t = ''_call'' then K_unwrap_call
      else if t = ''call'' then K_call
      else if t = ''named-argument'' then K_named_argument
      else K_default)"

text \<open>Bounds used only to show that the recursion of the builder ends.\<close>

definition osize :: "cst option \<Rightarrow> nat" where
  "osize co = (case co of None \<Rightarrow> 0 | Some c \<Rightarrow> size c)"

fun bound :: "cst option list \<Rightarrow> nat" where
  "bound [] = 0"
| "bound (co # opts) = max (osize co) (bound opts)"


text \<open>
  \<open>createFromAST\<close> threads the mutable \<open>state\<close> explicitly and returns the node built
  together with the state after it, or the thrown value. Its companions are the code
  under the label \<open>case 'call':\<close> (entered directly and, with the unwrapped child, by
  fall-through from \<open>case '_call':\<close>; \<open>start\<close> and \<open>end\<close> are those of the node
  dispatched on), \<open>exprSequence\<close> with its \<open>items.map(...)\<close>, \<open>argSequence\<close> with its
  \<open>for\<close> loop (\<open>last\<close> is \<open>None\<close> while it is \<open>undefined\<close> or \<open>false\<close>), and the \<open>for\<close>
  loop of the \<open>object\<close> case, which walks \<open>keys\<close> and \<open>vals\<close> in parallel
  (\<open>vals[i]\<close> is the head of what is left of \<open>vals\<close>, if any).
  Arguments are evaluated left to right: in \<open>new Definition(state.nodeId++, ...,
  createFromAST(...))\<close> the id is taken before the child is built.
  \<open>name.toString()\<close> of a terminal node is its text.
  Reading a property of an absent node (\<open>createFromAST(state, undefined)\<close> starts with
  \<open>n.start\<close>) raises a \<open>TypeError\<close>.
  \<^verbatim>\<open>
  function exprSequence (state, items) {
    if (!items) return []
    return items.map(c => createFromAST(state, c))
  }
  function argSequence (state, args) {
    if (!args) return []
    let result = []
    args = args.children
    let last
    for (let i = 0; i < args.length; i++) {
      let n = args[i]
      if (n.getText() === ',') {
        if (!last) {
          let [start, end] = _getStartStop(n)
          result.push(new EmptyArgument(state.nodeId++, start, end))
        }
        last = false
      } else {
        result.push(createFromAST(state, n))
        last = n
      }
    }
    if (!last) {
      last = args[args.length - 1]
      if (last.getText() === ',') {
        let [start, end] = _getStartStop(last)
        result.push(new EmptyArgument(state.nodeId++, start, end))
      }
    }
    return result
  }
  \<close>
\<close>

function (sequential) createFromAST :: "state \<Rightarrow> cst \<Rightarrow> error + (node \<times> state)"
  and createFromAST_call ::
    "state \<Rightarrow> int option \<Rightarrow> int option \<Rightarrow> cst \<Rightarrow> error + (node \<times> state)"
  and exprSequence :: "state \<Rightarrow> cst option list option \<Rightarrow> error + (node list \<times> state)"
  and exprSequence_map :: "state \<Rightarrow> cst option list \<Rightarrow> error + (node list \<times> state)"
  and argSequence :: "state \<Rightarrow> cst option \<Rightarrow> error + (node list \<times> state)"
  and argSequence_loop ::
    "state \<Rightarrow> cst list \<Rightarrow> cst option \<Rightarrow> node list
      \<Rightarrow> error + ((node list \<times> cst option) \<times> state)"
  and object_loop ::
    "state \<Rightarrow> symbol option list \<Rightarrow> cst option list \<Rightarrow> (string \<times> node) list
      \<Rightarrow> error + ((string \<times> node) list \<times> state)"
where
  "createFromAST st ast =
    (case getStartStop ast of (start, stop) \<Rightarrow>
      case kind_of (ctype ast) of
        K_evaluation \<Rightarrow>
        (case nth_opt (children ast) 0 of
           None \<Rightarrow> Inl TypeError
         | Some c \<Rightarrow> createFromAST st c)
      | K_definition \<Rightarrow>
        (case nth_opt (children ast) 0 of
           None \<Rightarrow> Inl TypeError
         | Some lhs \<Rightarrow>
            (case Token (JStr ''output-name'') (map_option raw_of (csymbol lhs)) of
               Inl e \<Rightarrow> Inl e
             | Inr tok \<Rightarrow>
                (case nth_opt (children ast) 2 of
                   None \<Rightarrow> Inl TypeError
                 | Some rhs \<Rightarrow>
                    (case createFromAST (next_id (push_token tok st)) rhs of
                       Inl e \<Rightarrow> Inl e
                     | Inr (expr, st1) \<Rightarrow>
                        push_node (Definition (nodeId st) start stop (getText lhs) expr) st1))))
      | K_simple \<Rightarrow>
        (case nth_opt (children ast) 0 of
           None \<Rightarrow> Inl TypeError
         | Some c \<Rightarrow> createFromAST st c)
      | K_select_id \<Rightarrow>
        (case nth_opt (children ast) 0 of
           None \<Rightarrow> Inl TypeError
         | Some c \<Rightarrow>
            (case createFromAST st c of
               Inl e \<Rightarrow> Inl e
             | Inr (val, st1) \<Rightarrow>
                (case nth_opt (children ast) 2 of
                   None \<Rightarrow> Inl TypeError
                 | Some member \<Rightarrow>
                    (case push_node (StringNode (nodeId st1) start stop (getText member))
                            (next_id st1) of
                       Inl e \<Rightarrow> Inl e
                     | Inr (ident, st2) \<Rightarrow>
                        push_node (FunctionCall (nodeId st2) start stop ''select'' [val, ident] [])
                          (next_id st2)))))
      | K_select_expr \<Rightarrow>
        (case exprSequence st (Some [nth_opt (children ast) 0, nth_opt (children ast) 2]) of
           Inl e \<Rightarrow> Inl e
         | Inr (args, st1) \<Rightarrow>
            push_node (FunctionCall (nodeId st1) start stop ''select'' args []) (next_id st1))
      | K_unary \<Rightarrow>
        (case exprSequence st (Some [nth_opt (children ast) 1]) of
           Inl e \<Rightarrow> Inl e
         | Inr (args, st1) \<Rightarrow>
            push_node (FunctionCall (nodeId st1) start stop (ctype ast) args []) (next_id st1))
      | K_binary \<Rightarrow>
        (case exprSequence st (Some [nth_opt (children ast) 0, nth_opt (children ast) 2]) of
           Inl e \<Rightarrow> Inl e
         | Inr (args, st1) \<Rightarrow>
            push_node (FunctionCall (nodeId st1) start stop (ctype ast) args []) (next_id st1))
      | K_pipe \<Rightarrow>
        (case nth_opt (children ast) 0 of
           None \<Rightarrow> Inl TypeError
         | Some l \<Rightarrow>
            (case createFromAST (next_id st) l of
               Inl e \<Rightarrow> Inl e
             | Inr (left, st1) \<Rightarrow>
                (case nth_opt (children ast) 2 of
                   None \<Rightarrow> Inl TypeError
                 | Some r \<Rightarrow>
                    (case createFromAST st1 r of
                       Inl e \<Rightarrow> Inl e
                     | Inr (right, st2) \<Rightarrow>
                        push_node (PipeOp (nodeId st) start stop left right) st2))))
      | K_number \<Rightarrow>
        (if length (children ast) \<noteq> 1 then
           push_node (ErrorNode (nodeId st) start stop (Text ''Invalid number.'')) (next_id st)
         else
           (case nth_opt (children (children ast ! 0)) 0 of
              None \<Rightarrow> Inl TypeError
            | Some tk \<Rightarrow>
               (case Token (JStr ''number-literal'') (map_option raw_of (csymbol tk)) of
                  Inl e \<Rightarrow> Inl e
                | Inr tok \<Rightarrow>
                   push_node (NumberNode (nodeId st) start stop (getText tk))
                     (next_id (push_token tok st)))))
      | K_boolean \<Rightarrow>
        (case nth_opt (children ast) 0 of
           None \<Rightarrow> Inl TypeError
         | Some tk \<Rightarrow>
            (case Token (JStr ''boolean-literal'') (map_option raw_of (csymbol tk)) of
               Inl e \<Rightarrow> Inl e
             | Inr tok \<Rightarrow>
                push_node (BooleanNode (nodeId st) start stop (getText tk = ''true''))
                  (next_id (push_token tok st))))
      | K_string \<Rightarrow>
        (case nth_opt (children ast) 0 of
           None \<Rightarrow> Inl TypeError
         | Some ctx \<Rightarrow>
            (case Token (JStr ''string-literal'') (map_option raw_of (csymbol ctx)) of
               Inl e \<Rightarrow> Inl e
             | Inr tok \<Rightarrow>
                push_node (StringNode (nodeId st) start stop (slice_1_m1 (getText ctx)))
                  (next_id (push_token tok st))))
      | K_array \<Rightarrow>
        (case nth_opt (children ast) 0 of
           None \<Rightarrow> Inl TypeError
         | Some ctx \<Rightarrow>
            (case (case nth_opt (children ctx) 1 of
                     None \<Rightarrow> Inr ([], st)
                   | Some seq \<Rightarrow>
                      (case citems seq of
                         None \<Rightarrow> Inr ([], st)
                       | Some items \<Rightarrow> exprSequence st (Some (map Some items)))) of
               Inl e \<Rightarrow> Inl e
             | Inr (vals, st1) \<Rightarrow>
                push_node (ArrayNode (nodeId st1) start stop vals) (next_id st1)))
      | K_object \<Rightarrow>
        (case nth_opt (children ast) 0 of
           None \<Rightarrow> Inl TypeError
         | Some ctx \<Rightarrow>
            (case object_loop st (ckeys ctx) (cvals ctx) [] of
               Inl e \<Rightarrow> Inl e
             | Inr (entries, st1) \<Rightarrow>
                push_node (ObjectNode (nodeId st1) start stop entries) (next_id st1)))
      | K_var \<Rightarrow>
        (case cstart ast of
           None \<Rightarrow> Inl TypeError
         | Some s \<Rightarrow>
            (case cstop ast of
               None \<Rightarrow> Inl TypeError
             | Some e \<Rightarrow>
                (case Token (JStr ''input-variable-name'')
                        (Some \<lparr>raw_start = JNum (Fin (of_int (sym_start s))),
                               raw_stop = JNum (Fin (of_int (sym_stop e))),
                               raw_text = None\<rparr>) of
                   Inl err \<Rightarrow> Inl err
                 | Inr tok \<Rightarrow>
                    (let node = Var (nodeId st) start stop (getText ast);
                         st1 = push_token tok (next_id st)
                     in push_node node (st1\<lparr>inputs := inputs st1 @ [node]\<rparr>)))))
      | K_group \<Rightarrow>
        (case nth_opt (children ast) 1 of
           None \<Rightarrow> Inl TypeError
         | Some c \<Rightarrow> createFromAST st c)
      | K_unwrap_call \<Rightarrow>
        (case nth_opt (children ast) 0 of
           None \<Rightarrow> Inl TypeError
         | Some inner \<Rightarrow> createFromAST_call st start stop inner)
      | K_call \<Rightarrow>
        createFromAST_call st start stop ast
      | K_named_argument \<Rightarrow>
        (case nth_opt (children ast) 0 of
           None \<Rightarrow> Inl TypeError
         | Some name \<Rightarrow>
            (case Token (JStr ''key'') (map_option raw_of (csymbol name)) of
               Inl e \<Rightarrow> Inl e
             | Inr tok \<Rightarrow>
                (case nth_opt (children ast) 2 of
                   None \<Rightarrow> Inl TypeError
                 | Some v \<Rightarrow>
                    (case createFromAST (next_id (push_token tok st)) v of
                       Inl e \<Rightarrow> Inl e
                     | Inr (val, st1) \<Rightarrow>
                        push_node (NamedArgument (nodeId st) start stop (getText name) val)
                          st1))))
      | K_default \<Rightarrow>
        (case cexception ast of
           Some x \<Rightarrow> push_node (ErrorNode (nodeId st) start stop (Payload x)) (next_id st)
         | None \<Rightarrow>
            push_node (ErrorNode (nodeId st) start stop (Text ''Parser error.''))
              (next_id st)))"
| "createFromAST_call st start stop ast =
    (let name = (case cname ast of Some nm \<Rightarrow> sym_text nm | None \<Rightarrow> '''') in
     case (case cargs ast of
             None \<Rightarrow> Inr (([], []), st)
           | Some argsCtx \<Rightarrow>
              (case argSequence st (cargs argsCtx) of
                 Inl e \<Rightarrow> Inl e
               | Inr (args, st1) \<Rightarrow>
                  (case argSequence st1 (cnamedArgs argsCtx) of
                     Inl e \<Rightarrow> Inl e
                   | Inr (namedArgs, st2) \<Rightarrow> Inr ((args, namedArgs), st2)))) of
       Inl e \<Rightarrow> Inl e
     | Inr ((args, namedArgs), st2) \<Rightarrow>
        (case (case cname ast of
                 None \<Rightarrow> Inr st2
               | Some nm \<Rightarrow>
                  (case Token (JStr ''function-name'') (Some (raw_of nm)) of
                     Inl e \<Rightarrow> Inl e
                   | Inr tok \<Rightarrow> Inr (push_token tok st2))) of
           Inl e \<Rightarrow> Inl e
         | Inr st3 \<Rightarrow>
            push_node (FunctionCall (nodeId st3) start stop name args namedArgs)
              (next_id st3)))"
| "exprSequence st items =
    (case items of
       None \<Rightarrow> Inr ([], st)
     | Some cs \<Rightarrow> exprSequence_map st cs)"
| "exprSequence_map st [] = Inr ([], st)"
| "exprSequence_map st (c # cs) =
    (case c of
       None \<Rightarrow> Inl TypeError
     | Some x \<Rightarrow>
        (case createFromAST st x of
           Inl e \<Rightarrow> Inl e
         | Inr (n, st1) \<Rightarrow>
            (case exprSequence_map st1 cs of
               Inl e \<Rightarrow> Inl e
             | Inr (ns, st2) \<Rightarrow> Inr (n # ns, st2))))"
| "argSequence st args =
    (case args of
       None \<Rightarrow> Inr ([], st)
     | Some a \<Rightarrow>
        (case argSequence_loop st (children a) None [] of
           Inl e \<Rightarrow> Inl e
         | Inr ((result, last_arg), st1) \<Rightarrow>
            (case last_arg of
               Some _ \<Rightarrow> Inr (result, st1)
             | None \<Rightarrow>
                (if children a = [] then Inl TypeError
                 else if getText (last (children a)) = '','' then
                   (case getStartStop (last (children a)) of (start, stop) \<Rightarrow>
                      Inr (result @ [EmptyArgument (nodeId st1) start stop], next_id st1))
                 else Inr (result, st1)))))"
| "argSequence_loop st [] last_arg result = Inr ((result, last_arg), st)"
| "argSequence_loop st (n # ns) last_arg result =
    (if getText n = '','' then
       (case last_arg of
          None \<Rightarrow>
            (case getStartStop n of (start, stop) \<Rightarrow>
               argSequence_loop (next_id st) ns None
                 (result @ [EmptyArgument (nodeId st) start stop]))
        | Some _ \<Rightarrow> argSequence_loop st ns None result)
     else
       (case createFromAST st n of
          Inl e \<Rightarrow> Inl e
        | Inr (x, st1) \<Rightarrow> argSequence_loop st1 ns (Some n) (result @ [x])))"
| "object_loop st [] vals entries = Inr (entries, st)"
| "object_loop st (k # ks) vals entries =
    (case Token (JStr ''key'') (map_option raw_of k) of
       Inl e \<Rightarrow> Inl e
     | Inr tok \<Rightarrow>
        (case (k, nth_opt vals 0) of
           (Some key, Some (Some v)) \<Rightarrow>
             (case createFromAST (push_token tok st) v of
                Inl e \<Rightarrow> Inl e
              | Inr (val, st1) \<Rightarrow> object_loop st1 ks (tl vals) (entries @ [(sym_text key, val)]))
         | _ \<Rightarrow> object_loop (push_token tok st) ks (tl vals) entries))"
  by pat_completeness auto

text \<open>
  The recursion ends: every call of \<open>createFromAST\<close> is on a node that lies strictly inside
  the node at hand, and the loops run down their lists.
\<close>

lemma nth_opt_in_set: "nth_opt xs i = Some x \<Longrightarrow> x \<in> set xs"
  by (auto simp: nth_opt_def split: if_splits)

lemma size_children: "x \<in> set (children c) \<Longrightarrow> size x < size c"
  by (cases c)
     (auto simp: less_Suc_eq_le dest!: size_list_estimation'[where f = size, OF _ order_refl])

lemma size_cargs: "cargs c = Some a \<Longrightarrow> size a < size c"
  by (cases c) auto

lemma size_cnamedArgs: "cnamedArgs c = Some a \<Longrightarrow> size a < size c"
  by (cases c) auto

lemma size_cvals: "Some x \<in> set (cvals c) \<Longrightarrow> size x < size c"
  by (cases c)
     (auto simp: less_Suc_eq_le
       dest!: size_list_estimation'[where f = "size_option size", OF _ order_refl])

lemma size_citems: "citems c = Some xs \<Longrightarrow> x \<in> set xs \<Longrightarrow> size x < size c"
  by (cases c)
     (auto simp: less_Suc_eq_le dest!: size_list_estimation'[where f = size, OF _ order_refl])


lemma osize_le_bound: "co \<in> set opts \<Longrightarrow> osize co \<le> bound opts"
  by (induction opts) auto

lemma bound_less:
  "0 < n \<Longrightarrow> (\<And>c. Some c \<in> set opts \<Longrightarrow> size c < n) \<Longrightarrow> bound opts < n"
  by (induction opts) (auto simp: osize_def split: option.splits)

lemma bound_tl: "bound (tl opts) \<le> bound opts"
  by (cases opts) auto

lemma size_pos: "0 < size (c :: cst)"
  by (cases c) simp

lemma nth_child_size: "nth_opt (children c) i = Some x \<Longrightarrow> size x < size c"
  by (rule size_children) (rule nth_opt_in_set)

lemma size_array_item:
  "nth_opt (children ast) i = Some ctx \<Longrightarrow> nth_opt (children ctx) j = Some seq \<Longrightarrow>
   citems seq = Some items \<Longrightarrow> x \<in> set items \<Longrightarrow> size x < size ast"
  by (meson nth_child_size size_citems less_trans)

lemma size_object_val:
  "nth_opt (children ast) i = Some ctx \<Longrightarrow> Some x \<in> set (cvals ctx) \<Longrightarrow> size x < size ast"
  by (meson nth_child_size size_cvals less_trans)

lemma size_call_args:
  "cargs ast = Some argsCtx \<Longrightarrow> cargs argsCtx = Some a \<Longrightarrow> size a < size ast"
  by (meson size_cargs less_trans)

lemma size_call_namedArgs:
  "cargs ast = Some argsCtx \<Longrightarrow> cnamedArgs argsCtx = Some a \<Longrightarrow> size a < size ast"
  by (meson size_cargs size_cnamedArgs less_trans)

lemma bound_tl_neq: "bound (tl vals) \<noteq> bound vals \<Longrightarrow> bound (tl vals) < bound vals"
  using bound_tl[of vals] by simp

lemma nth0_bound: "Some (Some x) = nth_opt vals 0 \<Longrightarrow> size x \<le> bound vals"
  using osize_le_bound[of "Some x" vals] nth_opt_in_set[of vals 0 "Some x"]
  by (simp add: osize_def)

lemma nth0_bound_neq:
  "Some (Some x) = nth_opt vals 0 \<Longrightarrow> size x \<noteq> bound vals \<Longrightarrow> size x < bound vals"
  using nth0_bound[of x vals] by simp

lemma bound_nth1: "bound [nth_opt (children ast) i] < size ast"
  by (rule bound_less) (auto simp: size_pos nth_child_size)

lemma bound_nth2: "bound [nth_opt (children ast) i, nth_opt (children ast) j] < size ast"
  by (rule bound_less) (auto simp: size_pos nth_child_size)

lemma bound_items:
  "nth_opt (children ast) i = Some ctx \<Longrightarrow> nth_opt (children ctx) j = Some seq \<Longrightarrow>
   citems seq = Some items \<Longrightarrow> bound (map Some items) < size ast"
  by (rule bound_less) (auto simp: size_pos size_array_item)

lemma bound_vals: "nth_opt (children ast) i = Some ctx \<Longrightarrow> bound (cvals ctx) < size ast"
  by (rule bound_less) (auto simp: size_pos size_object_val)

lemma bound_children: "bound (map Some (children a)) < size a"
  by (rule bound_less) (auto simp: size_pos size_children)

lemma bound_tl_less_eq: "bound (tl vals) < bound vals \<or> bound (tl vals) = bound vals"
  using bound_tl[of vals] by auto

definition build_measure where
  "build_measure = case_sum
     (case_sum (\<lambda>(st :: state, c). (size c, 1 :: nat))
        (case_sum (\<lambda>(st :: state, s :: int option, e :: int option, c). (size c, 0))
           (\<lambda>(st :: state, items).
              (case items of None \<Rightarrow> (0, 0) | Some cs \<Rightarrow> (bound cs, length cs + 3)))))
     (case_sum
        (case_sum (\<lambda>(st :: state, cs). (bound cs, length cs + 2))
           (\<lambda>(st :: state, a). (osize a, 0)))
        (case_sum
           (\<lambda>(st :: state, cs, l :: cst option, r :: node list).
              (bound (map Some cs), length cs + 2))
           (\<lambda>(st :: state, ks :: symbol option list, vs, en :: (string \<times> node) list).
              (bound vs, length ks + 2))))"

termination createFromAST
  apply (relation "inv_image (less_than <*lex*> less_than) build_measure")
  apply (simp_all add: build_measure_def nth_child_size bound_nth1 bound_nth2 bound_items
      bound_vals bound_children size_call_args size_call_namedArgs bound_tl_less_eq
      del: bound.simps split: option.splits)
  apply (auto simp: osize_def max_def size_pos size_call_args size_call_namedArgs
      bound_children dest: nth0_bound_neq split: option.splits)
  done


declare createFromAST.simps [simp del] createFromAST_call.simps [simp del]
  exprSequence.simps [simp del] argSequence.simps [simp del]

text \<open>
  \<^verbatim>\<open>
  export default function createNodeTree (ast) {
    let state = { nodeId: 0, nodes: [], inputs: [], tokens: [] }
    let root = createFromAST(state, ast)
    return { root, state }
  }
  \<close>
\<close>

definition initial_state :: state where
  "initial_state = \<lparr>nodeId = 0, nodes = [], inputs = [], tokens = []\<rparr>"

definition createNodeTree :: "cst \<Rightarrow> error + (node \<times> state)" where
  "createNodeTree ast = createFromAST initial_state ast"

section \<open>The walker\<close>

text \<open>
  Modelled from the spec: the \<open>type\<close> getters of the node classes (\<open>./Nodes\<close>) are not
  part of the sources. The tags are those the walker and the tests read for the kinds
  they know (\<open>definition\<close>, \<open>call\<close>, \<open>array\<close>, \<open>object\<close>, \<open>number\<close>, \<open>string\<close>,
  \<open>var\<close>); every operator is lowered to a function call and carries its tag; the
  remaining kinds carry a tag of their own, which is none of the walker's case labels.
\<close>

fun node_type :: "node \<Rightarrow> string" where
  "node_type (Definition _ _ _ _ _) = ''definition''"
| "node_type (NumberNode _ _ _ _) = ''number''"
| "node_type (StringNode _ _ _ _) = ''string''"
| "node_type (BooleanNode _ _ _ _) = ''boolean''"
| "node_type (ArrayNode _ _ _ _) = ''array''"
| "node_type (ObjectNode _ _ _ _) = ''object''"
| "node_type (Var _ _ _ _) = ''var''"
| "node_type (FunctionCall _ _ _ _ _ _) = ''call''"
| "node_type (NamedArgument _ _ _ _ _) = ''named-argument''"
| "node_type (PipeOp _ _ _ _ _) = ''pipe''"
| "node_type (ErrorNode _ _ _ _) = ''error''"
| "node_type (EmptyArgument _ _ _) = ''empty-arg''"

text \<open>The properties the walker reads; \<open>None\<close> where a node has no such property.\<close>

fun field_expr :: "node \<Rightarrow> node option" where
  "field_expr (Definition _ _ _ _ e) = Some e"
| "field_expr _ = None"

fun field_args :: "node \<Rightarrow> node list option" where
  "field_args (FunctionCall _ _ _ _ args _) = Some args"
| "field_args _ = None"

fun field_left :: "node \<Rightarrow> node option" where
  "field_left (PipeOp _ _ _ l _) = Some l"
| "field_left _ = None"

fun field_right :: "node \<Rightarrow> node option" where
  "field_right (PipeOp _ _ _ _ r) = Some r"
| "field_right _ = None"

fun field_vals :: "node \<Rightarrow> node list option" where
  "field_vals (ArrayNode _ _ _ vals) = Some vals"
| "field_vals _ = None"

fun field_entries :: "node \<Rightarrow> (string \<times> node) list option" where
  "field_entries (ObjectNode _ _ _ entries) = Some entries"
| "field_entries _ = None"

text \<open>
  The stack is a list whose head is the top: \<open>push\<close> is \<open>#\<close>, \<open>pop\<close> takes the head.
  \<^verbatim>\<open>for (let i = xs.length - 1; i >= 0; i--) stack.push(xs[i])\<close>
  pushes the elements from the last to the first.
\<close>

definition push_reversed :: "'a list \<Rightarrow> 'a list \<Rightarrow> 'a list" where
  "push_reversed xs stack = fold (\<lambda>x s. x # s) (rev xs) stack"

text \<open>The \<open>switch (next.type)\<close> of the walker: the stack after it, or the
  \<open>TypeError\<close> of reading \<open>length\<close> of a missing array.\<close>

definition walk_switch :: "node \<Rightarrow> node option list \<Rightarrow> error + node option list" where
  "walk_switch next stack =
     (if node_type next = ''definition'' then Inr (field_expr next # stack)
      else if node_type next \<in> {''function'', ''call''} then
        (case field_args next of
           None \<Rightarrow> Inl TypeError
         | Some args \<Rightarrow> Inr (push_reversed (map Some args) stack))
      else if node_type next \<in> {''plus'', ''minus'', ''mult'', ''div'', ''power''} then
        Inr (field_left next # field_right next # stack)
      else if node_type next = ''array'' then
        (case field_vals next of
           None \<Rightarrow> Inl TypeError
         | Some vals \<Rightarrow> Inr (push_reversed (map Some vals) stack))
      else if node_type next = ''object'' then
        (case field_entries next of
           None \<Rightarrow> Inl TypeError
         | Some entries \<Rightarrow> Inr (push_reversed (map (\<lambda>en. Some (snd en)) entries) stack))
      else Inr stack)"

text \<open>The weight of a stack, which every turn of the loop lowers.\<close>

definition stack_weight :: "node option list \<Rightarrow> nat" where
  "stack_weight stack = sum_list (map (\<lambda>x. case x of None \<Rightarrow> 0 | Some n \<Rightarrow> Suc (size n)) stack)"

lemma push_reversed_append: "push_reversed xs stack = xs @ stack"
proof -
  have "fold (\<lambda>x s. x # s) ys stack = rev ys @ stack" for ys :: "'a list"
    by (induction ys arbitrary: stack) auto
  then show ?thesis by (simp add: push_reversed_def)
qed

lemma stack_weight_simps:
  "stack_weight [] = 0"
  "stack_weight (None # st) = stack_weight st"
  "stack_weight (Some n # st) = Suc (size n) + stack_weight st"
  "stack_weight (xs @ ys) = stack_weight xs + stack_weight ys"
  by (simp_all add: stack_weight_def)

lemma stack_weight_nodes: "stack_weight (map Some ns) \<le> size_list size ns"
  by (induction ns) (auto simp: stack_weight_simps)

lemma stack_weight_entries:
  "stack_weight (map (\<lambda>en. Some (snd en)) es) \<le> size_list (size_prod (\<lambda>_. 0) size) es"
  by (induction es) (auto simp: stack_weight_simps)

lemma walk_switch_weight:
  assumes "walk_switch n stack = Inr stack'"
  shows "stack_weight stack' < Suc (size n) + stack_weight stack"
proof (cases n)
  case (ArrayNode i s e vals)
  then show ?thesis
    using assms stack_weight_nodes[of vals]
    by (auto simp: walk_switch_def push_reversed_append stack_weight_simps)
next
  case (ObjectNode i s e entries)
  then show ?thesis
    using assms stack_weight_entries[of entries]
    by (auto simp: walk_switch_def push_reversed_append stack_weight_simps)
next
  case (FunctionCall i s e name args namedArgs)
  then show ?thesis
    using assms stack_weight_nodes[of args]
    by (auto simp: walk_switch_def push_reversed_append stack_weight_simps)
qed (use assms in \<open>auto simp: walk_switch_def stack_weight_simps\<close>)

function walk_loop :: "node option list \<Rightarrow> error + node list" where
  "walk_loop [] = Inr []"
| "walk_loop (None # stack) = Inl TypeError"
| "walk_loop (Some next # stack) =
     (case walk_switch next stack of
        Inl e \<Rightarrow> Inl e
      | Inr stack' \<Rightarrow>
         (case walk_loop stack' of
            Inl e \<Rightarrow> Inl e
          | Inr visited \<Rightarrow> Inr (next # visited)))"
  by pat_completeness auto
termination
  by (relation "measure stack_weight") (auto simp: stack_weight_simps dest: walk_switch_weight)

text \<open>
  \<^verbatim>\<open>
  export default function walk(expr, fn) {
    let stack=[expr.root]
    while(stack.length) {
      const next = stack.pop()
      fn(next)
      switch(next.type) { ... }
    }
  }
  \<close>
  The walk is modelled by the sequence of nodes \<open>fn\<close> is applied to. Popping
  \<open>undefined\<close> makes \<open>next.type\<close> raise a \<open>TypeError\<close>.
\<close>

definition walk :: "node \<Rightarrow> error + node list" where
  "walk root_node = walk_loop [Some root_node]"


section \<open>Parse trees of the examples\<close>

definition tok :: "int \<Rightarrow> int \<Rightarrow> string \<Rightarrow> symbol" where
  "tok a b t = \<lparr>sym_start = a, sym_stop = b, sym_text = t\<rparr>"

text \<open>A terminal node: it has a \<open>symbol\<close> and a text, and nothing else.\<close>

definition terminal :: "symbol \<Rightarrow> cst" where
  "terminal sy = Cst [] [] None None (Some sy) (sym_text sy) None None None None [] [] None"

text \<open>A rule node of the given \<open>type\<close> with its \<open>start\<close> and \<open>stop\<close> tokens, text and
  children.\<close>

definition rule :: "string \<Rightarrow> symbol \<Rightarrow> symbol \<Rightarrow> string \<Rightarrow> cst list \<Rightarrow> cst" where
  "rule t a b txt cs = Cst t cs (Some a) (Some b) None txt None None None None [] [] None"

text \<open>A one-character number literal and a one-character variable at offset \<open>a\<close>.\<close>

definition num :: "int \<Rightarrow> string \<Rightarrow> cst" where
  "num a t = rule ''number'' (tok a a t) (tok a a t) t
     [rule ''int'' (tok a a t) (tok a a t) t [terminal (tok a a t)]]"

definition var :: "int \<Rightarrow> string \<Rightarrow> cst" where
  "var a t = rule ''var'' (tok a a t) (tok a a t) t [terminal (tok a a t)]"

text \<open>A binary operator node over two one-character operands: \<open>l op r\<close>.\<close>

definition binary :: "string \<Rightarrow> string \<Rightarrow> cst \<Rightarrow> cst \<Rightarrow> string \<Rightarrow> cst" where
  "binary t op l r txt =
     rule t (tok 0 0 (getText l)) (tok 2 2 (getText r)) txt [l, terminal (tok 1 1 op), r]"

text \<open>A call \<open>name(...)\<close>: the node of kind \<open>call\<close> with its \<open>name\<close> token and its \<open>args\<close>
  context, whose \<open>args\<close> is the context of the positional sequence \<open>cs\<close> (arguments and
  commas); there are no named arguments.\<close>

definition call :: "string \<Rightarrow> cst list \<Rightarrow> int \<Rightarrow> string \<Rightarrow> cst" where
  "call name cs b src =
     Cst ''call'' [] (Some (tok 0 2 name)) (Some (tok b b '')'')) None src None
       (Some (tok 0 2 name))
       (Some (Cst [] [] None None None [] None None
          (Some (Cst [] cs None None None [] None None None None [] [] None))
          None [] [] None))
       None [] [] None"

text \<open>The parse trees of \<open>x = 42\<close>, \<open>x|y\<close> and \<open>x|y|z\<close> (pipes associate to the left).\<close>

definition x_eq_42 :: cst where
  "x_eq_42 = rule ''definition'' (tok 0 0 ''x'') (tok 2 3 ''42'') ''x=42''
     [terminal (tok 0 0 ''x''), terminal (tok 1 1 ''=''),
      rule ''number'' (tok 2 3 ''42'') (tok 2 3 ''42'') ''42''
        [rule ''int'' (tok 2 3 ''42'') (tok 2 3 ''42'') ''42'' [terminal (tok 2 3 ''42'')]]]"

definition x_pipe_y :: cst where
  "x_pipe_y = binary ''pipe'' ''|'' (var 0 ''x'') (var 2 ''y'') ''x|y''"

definition x_pipe_y_pipe_z :: cst where
  "x_pipe_y_pipe_z = rule ''pipe'' (tok 0 0 ''x'') (tok 4 4 ''z'') ''x|y|z''
     [x_pipe_y, terminal (tok 3 3 ''|''), var 4 ''z'']"

text \<open>A node where the grammar failed: no \<open>type\<close>, one token, an \<open>exception\<close>.\<close>

definition failed :: "int \<Rightarrow> string \<Rightarrow> cst" where
  "failed a msg = Cst [] [] (Some (tok a a [])) None None [] (Some (RecognitionException msg))
     None None None [] [] None"

text \<open>An object literal: the rule node of kind \<open>object\<close> over the context that carries the
  \<open>keys\<close> and \<open>vals\<close> lists.\<close>

definition object_literal ::
  "symbol option list \<Rightarrow> cst option list \<Rightarrow> int \<Rightarrow> string \<Rightarrow> cst" where
  "object_literal ks vs b txt =
     rule ''object'' (tok 0 0 ''{'') (tok b b ''}'') txt
       [Cst [] [] (Some (tok 0 0 ''{'')) (Some (tok b b ''}'')) None txt None None None None
          ks vs None]"

section \<open>Arithmetic on offsets\<close>

text \<open>
  Integers up to \<open>2 ^ 53\<close> in magnitude are doubles, so \<open>+ 1\<close> is exact on the offsets
  below \<open>2 ^ 53\<close>. Beyond, \<open>ilog2\<close> is the exponent it is meant to be, the sum of an
  integer and one is an integer, and it is finite below \<open>2 ^ 1023\<close>: there
  \<open>plus_one_offset\<close> is \<open>plus_one\<close> on integers.
\<close>

lemma round_half_even_of_int [simp]: "round_half_even (of_int k) = k"
  by (simp add: round_half_even_def)

lemma ilog2_of_int: "0 < n \<Longrightarrow> ilog2 (of_int n) = bitlen n - 1"
  by (simp add: ilog2_def)

lemma bitlen_le_54:
  assumes "0 < n" "n \<le> 2 ^ 53"
  shows "bitlen n \<le> 54"
proof -
  from bitlen_bounds[OF assms(1)] assms(2) have "(2::int) ^ nat (bitlen n - 1) \<le> 2 ^ 53" by simp
  then have "nat (bitlen n - 1) \<le> 53" by (rule power_le_imp_le_exp[rotated]) simp
  then show ?thesis by simp
qed

lemma bitlen_54:
  assumes "0 < n" "n \<le> 2 ^ 53" "bitlen n = 54"
  shows "n = 2 ^ 53"
  using bitlen_bounds[OF assms(1)] assms by simp

lemma scaled_int:
  assumes "e \<le> 0"
  shows "(of_int n :: rat) / 2 powi e = of_int (n * 2 ^ nat (- e))"
  using assms by (simp add: power_int_def field_simps)

lemma round64_exact:
  assumes x: "x \<noteq> 0" and small: "\<bar>x\<bar> < 2 ^ 1024"
    and k: "x / 2 powi (max (ilog2 \<bar>x\<bar> - 52) (- 1074)) = of_int k"
  shows "round64 x = Fin x"
proof -
  let ?e = "max (ilog2 \<bar>x\<bar> - 52) (- 1074)"
  have y: "of_int (round_half_even (x / 2 powi ?e)) * 2 powi ?e = x"
    unfolding k round_half_even_of_int using k[symmetric] by simp
  show ?thesis
    unfolding round64_def Let_def y using x small by (simp add: not_le)
qed

lemma round64_pos_int:
  assumes "0 < n" "n \<le> 2 ^ 53"
  shows "round64 (of_int n) = Fin (of_int n)"
proof (rule round64_exact)
  show "(of_int n :: rat) \<noteq> 0" using assms by simp
  have "(of_int n :: rat) \<le> of_int (2 ^ 53)" using assms(2) by (simp only: of_int_le_iff)
  also have "\<dots> < 2 ^ 1024" by simp
  finally show "\<bar>of_int n :: rat\<bar> < 2 ^ 1024" using assms(1) by simp
  have abs: "\<bar>of_int n :: rat\<bar> = of_int n" using assms(1) by simp
  have il: "ilog2 (of_int n) = bitlen n - 1" using assms(1) by (rule ilog2_of_int)
  have L: "1 \<le> bitlen n" using bitlen_bounds[OF assms(1)] bitlen_nonneg[of n]
    by (cases "bitlen n = 0") auto
  have L54: "bitlen n \<le> 54" using assms by (rule bitlen_le_54)
  have e: "max (ilog2 \<bar>of_int n\<bar> - 52) (- 1074) = bitlen n - 53"
    unfolding abs il using L by simp
  show "(of_int n :: rat) / 2 powi (max (ilog2 \<bar>of_int n\<bar> - 52) (- 1074))
          = of_int (if bitlen n = 54 then 2 ^ 52 else n * 2 ^ nat (53 - bitlen n))"
  proof (cases "bitlen n = 54")
    case True
    with assms have "n = 2 ^ 53" by (intro bitlen_54)
    then show ?thesis unfolding e using True by simp
  next
    case False
    with L54 have "bitlen n - 53 \<le> 0" by simp
    from scaled_int[OF this, of n] False show ?thesis unfolding e by simp
  qed
qed

lemma round_half_even_minus_int: "round_half_even (- of_int k) = - k"
  using round_half_even_of_int[of "- k"] by (simp del: round_half_even_of_int)

lemma round64_of_int:
  assumes "\<bar>n\<bar> \<le> 2 ^ 53"
  shows "round64 (of_int n) = Fin (of_int n)"
proof -
  consider "n = 0" | "0 < n" | "n < 0" by linarith
  then show ?thesis
  proof cases
    case 1
    then show ?thesis by (simp add: round64_def)
  next
    case 2
    with assms show ?thesis by (intro round64_pos_int) simp_all
  next
    case 3
    with assms have p: "0 < - n" "- n \<le> 2 ^ 53" by simp_all
    show ?thesis
    proof (rule round64_exact)
      show "(of_int n :: rat) \<noteq> 0" using 3 by simp
      have "(of_int (- n) :: rat) \<le> of_int (2 ^ 53)" using p(2) by (simp only: of_int_le_iff)
      also have "\<dots> < 2 ^ 1024" by simp
      finally show "\<bar>of_int n :: rat\<bar> < 2 ^ 1024" using 3 by simp
      have abs: "\<bar>of_int n :: rat\<bar> = of_int (- n)" using 3 by simp
      have il: "ilog2 (of_int (- n)) = bitlen (- n) - 1" using p(1) by (rule ilog2_of_int)
      have L: "1 \<le> bitlen (- n)" using bitlen_bounds[OF p(1)] bitlen_nonneg[of "- n"]
        by (cases "bitlen (- n) = 0") auto
      have L54: "bitlen (- n) \<le> 54" using p by (rule bitlen_le_54)
      have e: "max (ilog2 \<bar>of_int n\<bar> - 52) (- 1074) = bitlen (- n) - 53"
        unfolding abs il using L by simp
      show "(of_int n :: rat) / 2 powi (max (ilog2 \<bar>of_int n\<bar> - 52) (- 1074))
          = of_int (if bitlen (- n) = 54 then - (2 ^ 52) else n * 2 ^ nat (53 - bitlen (- n)))"
      proof (cases "bitlen (- n) = 54")
        case True
        with p have "- n = 2 ^ 53" by (intro bitlen_54)
        then have "n = - (2 ^ 53)" by simp
        then show ?thesis unfolding e using True by simp
      next
        case False
        with L54 have "bitlen (- n) - 53 \<le> 0" by simp
        from scaled_int[OF this, of n] False show ?thesis unfolding e by simp
      qed
    qed
  qed
qed

lemma plus_one_of_int:
  "\<bar>n + 1\<bar> \<le> 2 ^ 53 \<Longrightarrow> plus_one (Fin (of_int n)) = Fin (of_int (n + 1))"
  using round64_of_int[of "n + 1"] by simp

lemma plus_one_offset_safe: "\<bar>n + 1\<bar> \<le> 2 ^ 53 \<Longrightarrow> plus_one_offset n = n + 1"
  unfolding plus_one_offset_def by (subst plus_one_of_int) simp_all


lemma round64_numeral: "numeral k \<le> (2 :: int) ^ 53 \<Longrightarrow> round64 (numeral k) = Fin (numeral k)"
  using round64_of_int[of "numeral k"] by simp

lemma round64_neg_numeral:
  "numeral k \<le> (2 :: int) ^ 53 \<Longrightarrow> round64 (- numeral k) = Fin (- numeral k)"
  using round64_of_int[of "- numeral k"] by simp

lemma round64_0: "round64 0 = Fin 0"
  by (simp add: round64_def)

lemma round64_1: "round64 1 = Fin 1"
  using round64_of_int[of 1] by simp

lemmas round64_simps [simp] = round64_numeral round64_neg_numeral round64_0 round64_1

lemma plus_one_offset_numeral [simp]:
  "numeral k + 1 \<le> (2 :: int) ^ 53 \<Longrightarrow> plus_one_offset (numeral k) = numeral k + 1"
  "plus_one_offset 0 = 1" "plus_one_offset 1 = 2"
  by (simp_all add: plus_one_offset_safe)

lemma ilog2_bounds:
  assumes "0 < x"
  shows "2 powi ilog2 x \<le> x \<and> x < 2 powi (ilog2 x + 1)"
proof (cases "1 \<le> x")
  case True
  let ?n = "\<lfloor>x\<rfloor>"
  from True have n: "0 < ?n" by simp
  have L: "1 \<le> bitlen ?n" using bitlen_bounds[OF n] bitlen_nonneg[of ?n]
    by (cases "bitlen ?n = 0") auto
  from bitlen_bounds[OF n] have lo: "2 ^ nat (bitlen ?n - 1) \<le> ?n" and hi: "?n < 2 ^ nat (bitlen ?n)"
    by simp_all
  have "(2::rat) ^ nat (bitlen ?n - 1) = of_int (2 ^ nat (bitlen ?n - 1))" by simp
  also have "\<dots> \<le> of_int ?n" using lo by (simp only: of_int_le_iff)
  also have "\<dots> \<le> x" by simp
  finally have a: "(2::rat) ^ nat (bitlen ?n - 1) \<le> x" .
  from hi have "?n + 1 \<le> 2 ^ nat (bitlen ?n)" by simp
  then have "(of_int (?n + 1) :: rat) \<le> of_int (2 ^ nat (bitlen ?n))" by (simp only: of_int_le_iff)
  moreover have "x < of_int (?n + 1)" by linarith
  ultimately have b: "x < (2::rat) ^ nat (bitlen ?n)" by simp
  from a b L True show ?thesis by (simp add: ilog2_def power_int_def)
next
  case False
  let ?y = "1 / x"
  let ?m = "\<lceil>?y\<rceil> - 1"
  from False assms have y: "1 < ?y" by simp
  then have m: "0 < ?m" by linarith
  have my: "of_int ?m < ?y" "?y \<le> of_int ?m + 1" by linarith+
  have L: "1 \<le> bitlen ?m" using bitlen_bounds[OF m] bitlen_nonneg[of ?m]
    by (cases "bitlen ?m = 0") auto
  from bitlen_bounds[OF m] have lo: "2 ^ nat (bitlen ?m - 1) \<le> ?m" and hi: "?m < 2 ^ nat (bitlen ?m)"
    by simp_all
  have "(2::rat) ^ nat (bitlen ?m - 1) = of_int (2 ^ nat (bitlen ?m - 1))" by simp
  also have "\<dots> \<le> of_int ?m" using lo by (simp only: of_int_le_iff)
  also have "\<dots> < ?y" using my(1) .
  finally have a: "(2::rat) ^ nat (bitlen ?m - 1) < 1 / x" .
  from hi have c: "\<lceil>?y\<rceil> \<le> 2 ^ nat (bitlen ?m)" by simp
  have "?y \<le> of_int \<lceil>?y\<rceil>" by simp
  also have "\<dots> \<le> of_int (2 ^ nat (bitlen ?m))" using c by (simp only: of_int_le_iff)
  also have "\<dots> = (2::rat) ^ nat (bitlen ?m)" by simp
  finally have b: "1 / x \<le> (2::rat) ^ nat (bitlen ?m)" .
  have p: "(0::rat) < 2 ^ nat (bitlen ?m)" "(0::rat) < 2 ^ nat (bitlen ?m - 1)" by simp_all
  from b assms p have b': "1 / 2 ^ nat (bitlen ?m) \<le> x"
    by (simp add: field_simps)
  from a assms p have a': "x < 1 / 2 ^ nat (bitlen ?m - 1)"
    by (simp add: field_simps)
  have il: "ilog2 x = - bitlen ?m" using False by (simp add: ilog2_def)
  have e1: "(2::rat) powi (- bitlen ?m) = 1 / 2 ^ nat (bitlen ?m)"
    using L by (simp add: power_int_def field_simps)
  have e2: "(2::rat) powi (- bitlen ?m + 1) = 1 / 2 ^ nat (bitlen ?m - 1)"
    using L by (cases "bitlen ?m = 1") (simp_all add: power_int_def field_simps)
  show ?thesis unfolding il e1 e2 using a' b' by simp
qed

text \<open>The same facts as equations for evaluation: below \<open>2 ^ 53\<close> nothing is rounded.\<close>

lemma plus_one_code [code]:
  "plus_one (Fin q) =
     (if of_int \<lfloor>q\<rfloor> = q \<and> \<bar>\<lfloor>q\<rfloor> + 1\<bar> \<le> 2 ^ 53 then Fin (q + 1) else round64 (q + 1))"
  "plus_one NegZero = Fin 1"
  "plus_one PosInfinity = PosInfinity"
  "plus_one NegInfinity = NegInfinity"
  "plus_one NaN = NaN"
proof -
  show "plus_one (Fin q) =
     (if of_int \<lfloor>q\<rfloor> = q \<and> \<bar>\<lfloor>q\<rfloor> + 1\<bar> \<le> 2 ^ 53 then Fin (q + 1) else round64 (q + 1))"
  proof (cases "of_int \<lfloor>q\<rfloor> = q \<and> \<bar>\<lfloor>q\<rfloor> + 1\<bar> \<le> 2 ^ 53")
    case True
    then have q: "of_int \<lfloor>q\<rfloor> = q" and b: "\<bar>\<lfloor>q\<rfloor> + 1\<bar> \<le> 2 ^ 53" by blast+
    from plus_one_of_int[OF b] have "plus_one (Fin q) = Fin (q + 1)"
      unfolding of_int_add q by simp
    with True show ?thesis by (simp only: if_True simp_thms)
  next
    case False
    then show ?thesis by (simp only: if_False plus_one.simps)
  qed
qed simp_all

lemma plus_one_offset_code [code]:
  "plus_one_offset n =
     (if \<bar>n + 1\<bar> \<le> 2 ^ 53 then n + 1
      else (case plus_one (Fin (of_int n)) of Fin q \<Rightarrow> \<lfloor>q\<rfloor> | _ \<Rightarrow> n + 1))"
proof (cases "\<bar>n + 1\<bar> \<le> 2 ^ 53")
  case True
  with plus_one_offset_safe[OF True] show ?thesis by (simp only: if_True)
next
  case False
  then show ?thesis by (simp only: if_False plus_one_offset_def)
qed

lemma plus_one_offset_integral:
  assumes "plus_one (Fin (of_int n)) = Fin q"
  shows "q = of_int (plus_one_offset n)"
proof -
  let ?x = "of_int (n + 1) :: rat"
  let ?e = "max (ilog2 \<bar>?x\<bar> - 52) (- 1074)"
  from assms have r: "round64 ?x = Fin q" by simp
  have "\<exists>k. q = of_int k"
  proof (cases "\<bar>n + 1\<bar> \<le> 2 ^ 53")
    case True
    from round64_of_int[OF True] r have "q = of_int (n + 1)" by simp
    then show ?thesis ..
  next
    case False
    then have nz: "?x \<noteq> 0" by auto
    have pos: "0 < \<bar>?x\<bar>" using nz by simp
    have "0 \<le> ?e"
    proof (rule ccontr)
      assume "\<not> 0 \<le> ?e"
      then have "ilog2 \<bar>?x\<bar> + 1 \<le> 52" by simp
      then have "(2::rat) powi (ilog2 \<bar>?x\<bar> + 1) \<le> 2 powi 52"
        by (intro power_int_increasing) simp_all
      with ilog2_bounds[OF pos] have "\<bar>?x\<bar> < 2 powi 52" by simp
      then have "\<bar>?x\<bar> < of_int (2 ^ 52)" by simp
      then have "\<bar>n + 1\<bar> < 2 ^ 52" unfolding of_int_abs[symmetric] by (simp only: of_int_less_iff)
      with False show False by simp
    qed
    then have p: "(2::rat) powi ?e = of_int (2 ^ nat ?e)" by (simp add: power_int_def)
    from r nz have "q = of_int (round_half_even (?x / 2 powi ?e)) * 2 powi ?e"
      by (simp add: round64_def Let_def split: if_splits)
    then have "q = of_int (round_half_even (?x / 2 powi ?e) * 2 ^ nat ?e)"
      unfolding p by simp
    then show ?thesis ..
  qed
  then obtain k where "q = of_int k" ..
  then show ?thesis using assms by (simp add: plus_one_offset_def)
qed

lemma round_half_even_ge:
  assumes "of_int a \<le> s"
  shows "a \<le> round_half_even s"
proof -
  from assms have "a \<le> \<lfloor>s\<rfloor>" by (simp add: le_floor_iff)
  then show ?thesis by (auto simp: round_half_even_def Let_def)
qed

lemma round_half_even_le:
  assumes "s \<le> of_int b"
  shows "round_half_even s \<le> b"
proof (cases "s = of_int b")
  case True
  then show ?thesis by simp
next
  case False
  with assms have "s < of_int b" by simp
  then have "\<lfloor>s\<rfloor> < b" by (simp add: floor_less_iff)
  then show ?thesis by (auto simp: round_half_even_def Let_def)
qed

lemma round64_finite:
  assumes big: "2 ^ 53 < \<bar>x\<bar>" and small: "\<bar>x\<bar> < 2 ^ 1023"
  shows "\<exists>q. round64 x = Fin q"
proof -
  let ?L = "ilog2 \<bar>x\<bar>"
  let ?e = "max (?L - 52) (- 1074)"
  let ?s = "x / 2 powi ?e"
  let ?m = "round_half_even ?s"
  from big have pos: "0 < \<bar>x\<bar>" and nz: "x \<noteq> 0" by auto
  from ilog2_bounds[OF pos] have lo: "2 powi ?L \<le> \<bar>x\<bar>" and hi: "\<bar>x\<bar> < 2 powi (?L + 1)"
    by simp_all
  have L1: "53 \<le> ?L"
  proof (rule ccontr)
    assume "\<not> 53 \<le> ?L"
    then have "?L + 1 \<le> 53" by simp
    then have "(2::rat) powi (?L + 1) \<le> 2 powi 53" by (intro power_int_increasing) simp_all
    with hi big show False by simp
  qed
  have L2: "?L \<le> 1022"
  proof (rule ccontr)
    assume "\<not> ?L \<le> 1022"
    then have "1023 \<le> ?L" by simp
    then have "(2::rat) powi 1023 \<le> 2 powi ?L" by (intro power_int_increasing) simp_all
    with lo small show False by simp
  qed
  from L1 have e: "?e = ?L - 52" by simp
  have p: "(0::rat) < 2 powi ?e" by simp
  have split1: "(2::rat) powi ?L = 2 ^ 52 * 2 powi ?e"
    unfolding e using power_int_add[of "2::rat" 52 "?L - 52"] by simp
  have split2: "(2::rat) powi (?L + 1) = 2 ^ 53 * 2 powi ?e"
    unfolding e using power_int_add[of "2::rat" 53 "?L - 52"] by (simp add: add.commute)
  have abs_s: "\<bar>?s\<bar> = \<bar>x\<bar> / 2 powi ?e" by simp
  have s_lo: "2 ^ 52 \<le> \<bar>?s\<bar>" unfolding abs_s using lo p unfolding split1 by (simp add: field_simps)
  have s_hi: "\<bar>?s\<bar> \<le> 2 ^ 53" unfolding abs_s using hi p unfolding split2 by (simp add: field_simps)
  have m: "2 ^ 52 \<le> \<bar>?m\<bar> \<and> \<bar>?m\<bar> \<le> 2 ^ 53"
  proof (cases "0 \<le> ?s")
    case True
    with s_lo s_hi have "of_int (2 ^ 52) \<le> ?s" "?s \<le> of_int (2 ^ 53)" by simp_all
    from round_half_even_ge[OF this(1)] round_half_even_le[OF this(2)] show ?thesis by simp
  next
    case False
    with s_lo s_hi have "of_int (- (2 ^ 53)) \<le> ?s" "?s \<le> of_int (- (2 ^ 52))" by simp_all
    from round_half_even_ge[OF this(1)] round_half_even_le[OF this(2)] show ?thesis by simp
  qed
  let ?y = "of_int ?m * 2 powi ?e :: rat"
  have abs_y: "\<bar>?y\<bar> = of_int \<bar>?m\<bar> * 2 powi ?e" by (simp add: abs_mult)
  from m have "(of_int \<bar>?m\<bar> :: rat) \<le> of_int (2 ^ 53)" by (simp only: of_int_le_iff)
  then have "\<bar>?y\<bar> \<le> 2 ^ 53 * 2 powi ?e" unfolding abs_y using p by simp
  also have "\<dots> = 2 powi (?L + 1)" by (rule split2[symmetric])
  also have "\<dots> \<le> 2 powi 1023" using L2 by (intro power_int_increasing) simp_all
  also have "\<dots> < (2::rat) ^ 1024" by simp
  finally have y_small: "\<not> 2 ^ 1024 \<le> \<bar>?y\<bar>" by simp
  from m have "?m \<noteq> 0" by auto
  then have y_nz: "?y \<noteq> 0" by simp
  have "round64 x = Fin ?y"
    unfolding round64_def Let_def using nz y_nz y_small by (simp only: if_False)
  then show ?thesis ..
qed

lemma plus_one_offset_correct:
  assumes "\<bar>n + 1\<bar> < 2 ^ 1023"
  shows "plus_one (Fin (of_int n)) = Fin (of_int (plus_one_offset n))"
proof -
  have "\<exists>q. plus_one (Fin (of_int n)) = Fin q"
  proof (cases "\<bar>n + 1\<bar> \<le> 2 ^ 53")
    case True
    from plus_one_of_int[OF this] show ?thesis ..
  next
    case False
    then have "(of_int (2 ^ 53) :: rat) < of_int \<bar>n + 1\<bar>" by (simp only: of_int_less_iff)
    moreover from assms have "(of_int \<bar>n + 1\<bar> :: rat) < of_int (2 ^ 1023)"
      by (simp only: of_int_less_iff)
    ultimately have "\<exists>q. round64 (of_int (n + 1)) = Fin q"
      by (intro round64_finite) simp_all
    then show ?thesis by simp
  qed
  then obtain q where q: "plus_one (Fin (of_int n)) = Fin q" ..
  from plus_one_offset_integral[OF q] q show ?thesis by simp
qed

text \<open>From \<open>2 ^ 53\<close> on the sum is rounded: \<open>2 ^ 53 + 1\<close> is not a double, and the tie goes
  to the even significand.\<close>

lemma plus_one_rounds:
  "plus_one (Fin (2 ^ 53)) = Fin (2 ^ 53) \<and> plus_one (Fin (2 ^ 53 + 2)) = Fin (2 ^ 53 + 4)
   \<and> plus_one_offset (2 ^ 53) = 2 ^ 53"
proof -
  have b: "bitlen 9007199254740993 = 54" "bitlen 9007199254740995 = 54" by code_simp+
  have f: "\<lfloor>9007199254740993 / 2 :: rat\<rfloor> = 4503599627370496"
    "\<lfloor>9007199254740995 / 2 :: rat\<rfloor> = 4503599627370497" by code_simp+
  show ?thesis
    by (simp add: plus_one_offset_def round64_def ilog2_def round_half_even_def Let_def
        power_int_def b f)
qed

section \<open>Building single nodes\<close>

text \<open>What \<open>createFromAST\<close> returns on the example trees and on a binary operator node, from
  any state.\<close>

lemma createFromAST_num:
  "createFromAST st (num a t) =
     Inr (NumberNode (nodeId st) (Some a) (Some (plus_one_offset a)) t,
          st\<lparr>tokens := tokens st @ [\<lparr>tok_type = ''number-literal'',
                  tok_start = Fin (of_int a), tok_end = plus_one (Fin (of_int a)),
                  tok_text = Some t\<rparr>],
             nodeId := Suc (nodeId st),
             nodes := nodes st @ [NumberNode (nodeId st) (Some a) (Some (plus_one_offset a)) t]\<rparr>)"
  unfolding num_def rule_def terminal_def tok_def
  by (subst createFromAST.simps)
     (simp add: getStartStop_def kind_of_def unary_ops_def binary_ops_def number_kinds_def
       nth_opt_def Token_def raw_of_def push_node_def next_id_def push_token_def)

lemma createFromAST_binary:
  assumes "ctype ast \<in> set binary_ops"
    and "nth_opt (children ast) 0 = Some l" and "nth_opt (children ast) 2 = Some r"
    and "createFromAST st l = Inr (x, st1)" and "createFromAST st1 r = Inr (y, st2)"
  shows "createFromAST st ast =
    Inr (FunctionCall (nodeId st2) (fst (getStartStop ast)) (snd (getStartStop ast))
           (ctype ast) [x, y] [],
         st2\<lparr>nodeId := Suc (nodeId st2),
             nodes := nodes st2 @ [FunctionCall (nodeId st2) (fst (getStartStop ast))
               (snd (getStartStop ast)) (ctype ast) [x, y] []]\<rparr>)"
proof -
  have kind: "kind_of (ctype ast) = K_binary"
    using assms(1) by (auto simp: kind_of_def binary_ops_def unary_ops_def)
  have "exprSequence st (Some [nth_opt (children ast) 0, nth_opt (children ast) 2])
        = Inr ([x, y], st2)"
    using assms(2-5) by (simp add: exprSequence.simps)
  then show ?thesis
    by (simp add: createFromAST.simps[of st ast] kind push_node_def next_id_def
        split: prod.splits)
qed

lemma createFromAST_var:
  "createFromAST st (var a t) =
     Inr (Var (nodeId st) (Some a) (Some (plus_one_offset a)) t,
          st\<lparr>nodeId := Suc (nodeId st),
             tokens := tokens st @ [\<lparr>tok_type = ''input-variable-name'',
                  tok_start = Fin (of_int a), tok_end = plus_one (Fin (of_int a)),
                  tok_text = None\<rparr>],
             inputs := inputs st @ [Var (nodeId st) (Some a) (Some (plus_one_offset a)) t],
             nodes := nodes st @ [Var (nodeId st) (Some a) (Some (plus_one_offset a)) t]\<rparr>)"
  unfolding var_def rule_def terminal_def tok_def
  by (subst createFromAST.simps)
     (simp add: getStartStop_def kind_of_def unary_ops_def binary_ops_def number_kinds_def
       nth_opt_def Token_def raw_of_def push_node_def next_id_def push_token_def Let_def)

lemma example_texts [simp]:
  "getText (var a t) = t" "getText (num a t) = t" "getText (terminal sy) = sym_text sy"
  "getStartStop (terminal sy) = (Some (sym_start sy), Some (plus_one_offset (sym_stop sy)))"
  by (simp_all add: var_def num_def rule_def terminal_def getStartStop_def)

lemma createFromAST_call_args:
  assumes "argSequence st (Some (Cst [] cs None None None [] None None None None [] [] None))
           = Inr (args, st1)"
  shows "createFromAST st (call name cs b src) =
     Inr (FunctionCall (nodeId st1) (Some 0) (Some (plus_one_offset b)) name args [],
          st1\<lparr>tokens := tokens st1 @ [\<lparr>tok_type = ''function-name'', tok_start = Fin 0,
                   tok_end = Fin 3, tok_text = Some name\<rparr>],
              nodeId := Suc (nodeId st1),
              nodes := nodes st1
                @ [FunctionCall (nodeId st1) (Some 0) (Some (plus_one_offset b)) name args []]\<rparr>)"
  unfolding call_def
  by (subst createFromAST.simps)
     (simp add: assms createFromAST_call.simps argSequence.simps[of _ None] getStartStop_def
       kind_of_def unary_ops_def binary_ops_def number_kinds_def tok_def Token_def raw_of_def
       push_node_def next_id_def push_token_def)

section \<open>The token constructor\<close>

text \<open>
  Claim C7, as the code has it. Given a symbol, the constructor throws an
  \<open>Illegal argument\<close> error exactly when the kind is not a string or the start or stop
  offset is not a number, and succeeds exactly when all three checks pass. A constructed
  token has the symbol's start, and its end is \<open>stop + 1\<close> as the host adds numbers.
  For integer offsets with a stop below \<open>2 ^ 53\<close> in magnitude the end is the integer
  \<open>stop + 1\<close>. Nothing compares start with stop: \<open>start \<le> end\<close> holds exactly when
  the symbol has \<open>start \<le> stop + 1\<close>.
\<close>

theorem Token_contract:
  "((\<exists>a. Token ty (Some sy) = Inl (IllegalArgument a)) \<longleftrightarrow>
      \<not> isString ty \<or> \<not> isNumber (raw_start sy) \<or> \<not> isNumber (raw_stop sy))
   \<and> ((\<exists>t. Token ty (Some sy) = Inr t) \<longleftrightarrow>
      isString ty \<and> isNumber (raw_start sy) \<and> isNumber (raw_stop sy))
   \<and> (\<forall>t. Token ty (Some sy) = Inr t \<longrightarrow>
        (\<exists>a b. raw_start sy = JNum a \<and> raw_stop sy = JNum b \<and> tok_start t = a
           \<and> tok_end t = plus_one b))
   \<and> (\<forall>t i j. Token ty (Some sy) = Inr t \<and> raw_start sy = JNum (Fin (of_int i))
          \<and> raw_stop sy = JNum (Fin (of_int j)) \<and> \<bar>j\<bar> < 2 ^ 53 \<longrightarrow>
        tok_start t = Fin (of_int i) \<and> tok_end t = Fin (of_int (j + 1))
        \<and> (num_le (tok_start t) (tok_end t) \<longleftrightarrow> i \<le> j + 1))"
proof -
  have safe: "plus_one (Fin (of_int j)) = Fin (of_int (j + 1))" if "\<bar>j\<bar> < 2 ^ 53" for j :: int
    using that by (intro plus_one_of_int) simp
  have le: "num_le (Fin (of_int i)) (Fin (of_int (j + 1))) \<longleftrightarrow> i \<le> j + 1" for i j :: int
    unfolding num_le.simps by (simp only: of_int_le_iff)
  show ?thesis
  proof (intro conjI allI impI)
    show "(\<exists>a. Token ty (Some sy) = Inl (IllegalArgument a)) \<longleftrightarrow>
      \<not> isString ty \<or> \<not> isNumber (raw_start sy) \<or> \<not> isNumber (raw_stop sy)"
      by (auto simp: Token_def isString_def isNumber_def split: jsval.splits)
    show "(\<exists>t. Token ty (Some sy) = Inr t) \<longleftrightarrow>
      isString ty \<and> isNumber (raw_start sy) \<and> isNumber (raw_stop sy)"
      by (auto simp: Token_def isString_def isNumber_def split: jsval.splits)
  next
    fix t assume "Token ty (Some sy) = Inr t"
    then show "\<exists>a b. raw_start sy = JNum a \<and> raw_stop sy = JNum b \<and> tok_start t = a
           \<and> tok_end t = plus_one b"
      by (auto simp: Token_def split: jsval.splits)
  next
    fix t i j
    assume a: "Token ty (Some sy) = Inr t \<and> raw_start sy = JNum (Fin (of_int i))
          \<and> raw_stop sy = JNum (Fin (of_int j)) \<and> \<bar>j\<bar> < 2 ^ 53"
    then have s: "tok_start t = Fin (of_int i)" and e: "tok_end t = plus_one (Fin (of_int j))"
      by (auto simp: Token_def split: jsval.splits)
    from a have e': "tok_end t = Fin (of_int (j + 1))" unfolding e by (intro safe) simp
    show "tok_start t = Fin (of_int i)" by (rule s)
    show "tok_end t = Fin (of_int (j + 1))" by (rule e')
    show "num_le (tok_start t) (tok_end t) \<longleftrightarrow> i \<le> j + 1" unfolding s e' by (rule le)
  qed
qed

theorem Token_contract_witness:
  "Token (JStr ''key'')
     (Some \<lparr>raw_start = JNum (Fin 3), raw_stop = JNum (Fin 7), raw_text = Some ''total''\<rparr>)
     = Inr \<lparr>tok_type = ''key'', tok_start = Fin 3, tok_end = Fin 8, tok_text = Some ''total''\<rparr>
   \<and> num_le (Fin 3) (Fin 8)
   \<and> (\<exists>a. Token (JNum (Fin 1))
          (Some \<lparr>raw_start = JNum (Fin 3), raw_stop = JNum (Fin 7), raw_text = None\<rparr>)
         = Inl (IllegalArgument a))"
proof -
  let ?sy = "\<lparr>raw_start = JNum (Fin (of_int 3)), raw_stop = JNum (Fin (of_int 7)),
              raw_text = Some ''total''\<rparr>"
  let ?sz = "\<lparr>raw_start = JNum (Fin 3), raw_stop = JNum (Fin 7), raw_text = None\<rparr>"
  have ok: "isString (JStr ''key'') \<and> isNumber (raw_start ?sy) \<and> isNumber (raw_stop ?sy)"
    by (simp add: isString_def isNumber_def)
  from Token_contract[of "JStr ''key''" ?sy] ok
  obtain t where t: "Token (JStr ''key'') (Some ?sy) = Inr t" by blast
  have "Token (JStr ''key'') (Some ?sy) = Inr t \<and> raw_start ?sy = JNum (Fin (of_int 3))
          \<and> raw_stop ?sy = JNum (Fin (of_int 7)) \<and> \<bar>7 :: int\<bar> < 2 ^ 53"
    using t by simp
  with Token_contract[of "JStr ''key''" ?sy]
  have se: "tok_start t = Fin (of_int 3) \<and> tok_end t = Fin (of_int (7 + 1))
        \<and> (num_le (tok_start t) (tok_end t) \<longleftrightarrow> (3 :: int) \<le> 7 + 1)"
    by blast
  then have le: "num_le (Fin 3) (Fin 8)" by simp
  have "tok_type t = ''key'' \<and> tok_text t = Some ''total''"
    using t by (auto simp: Token_def)
  with se have first: "Token (JStr ''key'')
     (Some \<lparr>raw_start = JNum (Fin 3), raw_stop = JNum (Fin 7), raw_text = Some ''total''\<rparr>)
     = Inr \<lparr>tok_type = ''key'', tok_start = Fin 3, tok_end = Fin 8, tok_text = Some ''total''\<rparr>"
    using t by simp
  have "\<not> isString (JNum (Fin 1))" by (simp add: isString_def)
  with Token_contract[of "JNum (Fin 1)" ?sz]
  have "\<exists>a. Token (JNum (Fin 1)) (Some ?sz) = Inl (IllegalArgument a)" by blast
  with first le show ?thesis by blast
qed

text \<open>A symbol whose stop lies more than one before its start is accepted, and the token
  ends before it starts.\<close>

theorem Token_end_before_start:
  "Token (JStr ''key'') (Some \<lparr>raw_start = JNum (Fin 5), raw_stop = JNum (Fin 2), raw_text = None\<rparr>)
     = Inr \<lparr>tok_type = ''key'', tok_start = Fin 5, tok_end = Fin 3, tok_text = None\<rparr>
   \<and> \<not> num_le (Fin 5) (Fin 3)"
  by (simp add: Token_def)

section \<open>Cell and range addresses\<close>

text \<open>
  Claim C1 at the inputs of the tests \<open>B3\<close> and \<open>A1:C4\<close>: the dispatch of the builder has
  no case for a cell or a range, so a parse tree node of kind \<open>cell\<close> or \<open>range\<close> falls
  through to the default case and becomes an error node with the message
  \<open>Parser error.\<close>; no row or column is computed.
\<close>

theorem cell_and_range_not_recognized:
  "createNodeTree (rule ''cell'' (tok 0 1 ''B3'') (tok 0 1 ''B3'') ''B3'' [terminal (tok 0 1 ''B3'')])
     = Inr (ErrorNode 0 (Some 0) (Some 2) (Text ''Parser error.''),
            \<lparr>nodeId = 1, nodes = [ErrorNode 0 (Some 0) (Some 2) (Text ''Parser error.'')],
             inputs = [], tokens = []\<rparr>)
   \<and> createNodeTree (rule ''range'' (tok 0 1 ''A1'') (tok 3 4 ''C4'') ''A1:C4''
        [terminal (tok 0 1 ''A1''), terminal (tok 2 2 '':''), terminal (tok 3 4 ''C4'')])
     = Inr (ErrorNode 0 (Some 0) (Some 5) (Text ''Parser error.''),
            \<lparr>nodeId = 1, nodes = [ErrorNode 0 (Some 0) (Some 5) (Text ''Parser error.'')],
             inputs = [], tokens = []\<rparr>)"
  by code_simp


section \<open>Error recovery\<close>

text \<open>The case labels of \<open>createFromAST\<close>, and the error node its default case builds.\<close>

definition recognized_kinds :: "string list" where
  "recognized_kinds = [''evaluation'', ''definition'', ''simple'', ''select_id'', ''select_expr'']
     @ unary_ops @ binary_ops @ [''pipe''] @ number_kinds
     @ [''boolean'', ''string'', ''array'', ''object'', ''var'', ''group'', ''_call'', ''call'',
        ''named-argument'']"

definition error_message :: "cst \<Rightarrow> message" where
  "error_message ast = (case cexception ast of Some x \<Rightarrow> Payload x | None \<Rightarrow> Text ''Parser error.'')"

definition error_node :: "state \<Rightarrow> cst \<Rightarrow> node" where
  "error_node st ast =
     ErrorNode (nodeId st) (fst (getStartStop ast)) (snd (getStartStop ast)) (error_message ast)"

text \<open>
  Claim C2, as the code has it. A parse tree node whose kind is none of the case labels is
  built without throwing: the result is an error node carrying the node's exception
  payload when it has one and the text \<open>Parser error.\<close> otherwise, with the current
  id and the node's span; it is appended to the node list and the id counter moves on.
  Since the recursion of the builder returns what the child's build returns, the error
  node stands where the child stood.
\<close>

theorem unrecognized_kind_ErrorNode:
  assumes "ctype ast \<notin> set recognized_kinds"
  shows "createFromAST st ast =
    Inr (error_node st ast,
         st\<lparr>nodeId := Suc (nodeId st), nodes := nodes st @ [error_node st ast]\<rparr>)"
proof -
  have "kind_of (ctype ast) = K_default"
    using assms
    by (simp add: kind_of_def recognized_kinds_def unary_ops_def binary_ops_def
        number_kinds_def)
  then show ?thesis
    by (simp add: createFromAST.simps[of st ast] push_node_def next_id_def error_node_def
        error_message_def split: prod.splits option.splits)
qed

theorem unrecognized_kind_ErrorNode_witness:
  "createNodeTree (terminal (tok 0 0 ''?'')) =
     Inr (ErrorNode 0 (Some 0) (Some 1) (Text ''Parser error.''),
          \<lparr>nodeId = 1, nodes = [ErrorNode 0 (Some 0) (Some 1) (Text ''Parser error.'')],
           inputs = [], tokens = []\<rparr>)
   \<and> createNodeTree (failed 2 ''no viable alternative'') =
     Inr (ErrorNode 0 (Some 2) (Some 3) (Payload (RecognitionException ''no viable alternative'')),
          \<lparr>nodeId = 1,
           nodes = [ErrorNode 0 (Some 2) (Some 3)
                      (Payload (RecognitionException ''no viable alternative''))],
           inputs = [], tokens = []\<rparr>)
   \<and> map_sum id fst (createNodeTree
         (binary ''add'' ''+'' (num 0 ''1'') (failed 2 ''no viable alternative'') ''1+'')) =
     Inr (FunctionCall 2 (Some 0) (Some 3) ''add''
           [NumberNode 0 (Some 0) (Some 1) ''1'',
            ErrorNode 1 (Some 2) (Some 3)
              (Payload (RecognitionException ''no viable alternative''))] [])"
proof -
  have k1: "ctype (terminal (tok 0 0 ''?'')) \<notin> set recognized_kinds"
    and k2: "ctype (failed 2 ''no viable alternative'') \<notin> set recognized_kinds"
    by (simp_all add: terminal_def failed_def recognized_kinds_def unary_ops_def
        binary_ops_def number_kinds_def)
  have a: "createNodeTree (terminal (tok 0 0 ''?'')) =
     Inr (ErrorNode 0 (Some 0) (Some 1) (Text ''Parser error.''),
          \<lparr>nodeId = 1, nodes = [ErrorNode 0 (Some 0) (Some 1) (Text ''Parser error.'')],
           inputs = [], tokens = []\<rparr>)"
    using unrecognized_kind_ErrorNode[OF k1, of initial_state]
    by (simp add: createNodeTree_def initial_state_def error_node_def error_message_def
        terminal_def tok_def getStartStop_def)
  have b: "createNodeTree (failed 2 ''no viable alternative'') =
     Inr (ErrorNode 0 (Some 2) (Some 3) (Payload (RecognitionException ''no viable alternative'')),
          \<lparr>nodeId = 1,
           nodes = [ErrorNode 0 (Some 2) (Some 3)
                      (Payload (RecognitionException ''no viable alternative''))],
           inputs = [], tokens = []\<rparr>)"
    using unrecognized_kind_ErrorNode[OF k2, of initial_state]
    by (simp add: createNodeTree_def initial_state_def error_node_def error_message_def
        failed_def tok_def getStartStop_def)
  have c: "map_sum id fst (createNodeTree
         (binary ''add'' ''+'' (num 0 ''1'') (failed 2 ''no viable alternative'') ''1+'')) =
     Inr (FunctionCall 2 (Some 0) (Some 3) ''add''
           [NumberNode 0 (Some 0) (Some 1) ''1'',
            ErrorNode 1 (Some 2) (Some 3)
              (Payload (RecognitionException ''no viable alternative''))] [])"
    by code_simp
  from a b c show ?thesis by blast
qed

text \<open>
  Building can throw on a parse tree of a recognized kind: an \<open>add\<close> node without
  children makes the builder read \<open>start\<close> of \<open>undefined\<close>.
\<close>

theorem build_throws_on_missing_operands:
  "createNodeTree (rule ''add'' (tok 0 0 ''1'') (tok 2 2 ''2'') ''1+2'' []) = Inl TypeError"
  by code_simp

section \<open>Binary operators\<close>

text \<open>
  Claim C4. A node of a binary operator kind whose operands (children 0 and 2) build to
  \<open>x\<close> and \<open>y\<close>, one after the other, is lowered to a function call named after the kind, with
  the two arguments \<open>[x, y]\<close> and no named arguments; it takes the next id and is appended
  to the node list. The operands are built by recursion only. The witness builds \<open>1+2\<close>,
  \<open>2*3\<close>, \<open>5-3\<close>, \<open>6/3\<close> and \<open>2^3\<close>.
\<close>

theorem binary_operator_lowering:
  assumes "ctype ast \<in> set binary_ops"
    and "nth_opt (children ast) 0 = Some l" and "nth_opt (children ast) 2 = Some r"
    and "createFromAST st l = Inr (x, st1)" and "createFromAST st1 r = Inr (y, st2)"
  shows "createFromAST st ast =
    Inr (FunctionCall (nodeId st2) (fst (getStartStop ast)) (snd (getStartStop ast))
           (ctype ast) [x, y] [],
         st2\<lparr>nodeId := Suc (nodeId st2),
             nodes := nodes st2 @ [FunctionCall (nodeId st2) (fst (getStartStop ast))
               (snd (getStartStop ast)) (ctype ast) [x, y] []]\<rparr>)"
  using assms by (rule createFromAST_binary)

theorem binary_operator_lowering_witness:
  "map_sum id fst (createNodeTree (binary ''add'' ''+'' (num 0 ''1'') (num 2 ''2'') ''1+2'')) =
     Inr (FunctionCall 2 (Some 0) (Some 3) ''add''
           [NumberNode 0 (Some 0) (Some 1) ''1'', NumberNode 1 (Some 2) (Some 3) ''2''] [])
   \<and> map_sum id fst (createNodeTree (binary ''multiply'' ''*'' (num 0 ''2'') (num 2 ''3'') ''2*3'')) =
     Inr (FunctionCall 2 (Some 0) (Some 3) ''multiply''
           [NumberNode 0 (Some 0) (Some 1) ''2'', NumberNode 1 (Some 2) (Some 3) ''3''] [])
   \<and> map_sum id fst (createNodeTree (binary ''subtract'' ''-'' (num 0 ''5'') (num 2 ''3'') ''5-3'')) =
     Inr (FunctionCall 2 (Some 0) (Some 3) ''subtract''
           [NumberNode 0 (Some 0) (Some 1) ''5'', NumberNode 1 (Some 2) (Some 3) ''3''] [])
   \<and> map_sum id fst (createNodeTree (binary ''divide'' ''/'' (num 0 ''6'') (num 2 ''3'') ''6/3'')) =
     Inr (FunctionCall 2 (Some 0) (Some 3) ''divide''
           [NumberNode 0 (Some 0) (Some 1) ''6'', NumberNode 1 (Some 2) (Some 3) ''3''] [])
   \<and> map_sum id fst (createNodeTree (binary ''pow'' ''^'' (num 0 ''2'') (num 2 ''3'') ''2^3'')) =
     Inr (FunctionCall 2 (Some 0) (Some 3) ''pow''
           [NumberNode 0 (Some 0) (Some 1) ''2'', NumberNode 1 (Some 2) (Some 3) ''3''] [])"
proof -
  have gen: "map_sum id fst (createNodeTree (binary t op (num 0 a) (num 2 b) src)) =
     Inr (FunctionCall 2 (Some 0) (Some 3) t
           [NumberNode 0 (Some 0) (Some 1) a, NumberNode 1 (Some 2) (Some 3) b] [])"
    if "t \<in> set binary_ops" for t op a b src
  proof -
    let ?ast = "binary t op (num 0 a) (num 2 b) src"
    have 1: "ctype ?ast \<in> set binary_ops" using that by (simp add: binary_def rule_def)
    have 2: "nth_opt (children ?ast) 0 = Some (num 0 a)"
      and 3: "nth_opt (children ?ast) 2 = Some (num 2 b)"
      by (simp_all add: binary_def rule_def nth_opt_def)
    show ?thesis
      using binary_operator_lowering[OF 1 2 3 createFromAST_num createFromAST_num, of initial_state]
      by (simp add: createNodeTree_def initial_state_def binary_def rule_def tok_def
          getStartStop_def)
  qed
  show ?thesis
    by (intro conjI gen) (simp_all add: binary_ops_def)
qed

section \<open>Object literals\<close>

text \<open>
  Claim C8 at an object literal whose only key is absent: the \<open>key\<close> token is constructed
  from \<open>keys[i]\<close> before the guard \<open>keys[i] && vals[i]\<close> is reached, and the constructor
  throws a \<open>TypeError\<close> on the absent key, so the build fails instead of skipping the
  pair. A pair whose value is absent is skipped, after its \<open>key\<close> token is emitted.
\<close>

theorem object_key_absent_throws:
  "createNodeTree (object_literal [None] [Some (num 4 ''1'')] 5 ''{ : 1}'') = Inl TypeError
   \<and> createNodeTree (object_literal [Some (tok 1 1 ''a'')] [] 3 ''{a:}'') =
       Inr (ObjectNode 0 (Some 0) (Some 4) [],
            \<lparr>nodeId = 1, nodes = [ObjectNode 0 (Some 0) (Some 4) []], inputs = [],
             tokens = [\<lparr>tok_type = ''key'', tok_start = Fin 1, tok_end = Fin 2, tok_text = Some ''a''\<rparr>]\<rparr>)"
  by code_simp


section \<open>Argument sequencing\<close>

text \<open>
  The policy in the words of the specification: the sequence is scanned from left to
  right, each position together with the one before it. A comma that opens the sequence
  or follows a comma yields an empty argument at the comma's own span, a comma after an
  argument yields nothing, every other position is built; a comma in last position
  yields one final empty argument. \<open>run_items\<close> carries the items out in order: an
  empty argument takes the next id, a position is built by \<open>createFromAST\<close>.
\<close>

datatype arg_item = EmptyAt cst | BuildOf cst

definition is_comma :: "cst \<Rightarrow> bool" where
  "is_comma c \<longleftrightarrow> getText c = '',''"

definition item_at :: "cst option \<Rightarrow> cst \<Rightarrow> arg_item list" where
  "item_at prev c =
     (if is_comma c then
        (case prev of
           None \<Rightarrow> [EmptyAt c]
         | Some p \<Rightarrow> if is_comma p then [EmptyAt c] else [])
      else [BuildOf c])"

definition scan_items :: "cst option \<Rightarrow> cst list \<Rightarrow> arg_item list" where
  "scan_items prev cs = concat (map (\<lambda>(p, c). item_at p c) (zip (prev # map Some cs) cs))"

definition arg_items :: "cst list \<Rightarrow> arg_item list" where
  "arg_items cs =
     scan_items None cs @ (if cs \<noteq> [] \<and> is_comma (last cs) then [EmptyAt (last cs)] else [])"

fun run_items :: "state \<Rightarrow> arg_item list \<Rightarrow> error + (node list \<times> state)" where
  "run_items st [] = Inr ([], st)"
| "run_items st (EmptyAt c # items) =
     (case run_items (next_id st) items of
        Inl e \<Rightarrow> Inl e
      | Inr (ns, st') \<Rightarrow>
          Inr (EmptyArgument (nodeId st) (fst (getStartStop c)) (snd (getStartStop c)) # ns, st'))"
| "run_items st (BuildOf c # items) =
     (case createFromAST st c of
        Inl e \<Rightarrow> Inl e
      | Inr (n, st1) \<Rightarrow>
          (case run_items st1 items of
             Inl e \<Rightarrow> Inl e
           | Inr (ns, st') \<Rightarrow> Inr (n # ns, st')))"

lemma scan_items_simps [simp]:
  "scan_items prev [] = []"
  "scan_items prev (c # cs) = item_at prev c @ scan_items (Some c) cs"
  by (simp_all add: scan_items_def)

lemma run_items_append:
  "run_items st (xs @ ys) =
     (case run_items st xs of
        Inl e \<Rightarrow> Inl e
      | Inr (ns, st1) \<Rightarrow>
          (case run_items st1 ys of
             Inl e \<Rightarrow> Inl e
           | Inr (ms, st2) \<Rightarrow> Inr (ns @ ms, st2)))"
  by (induction st xs rule: run_items.induct) (auto split: sum.splits prod.splits)

lemma argSequence_loop_scan:
  assumes "last_arg = None \<longleftrightarrow> (case prev of None \<Rightarrow> True | Some p \<Rightarrow> is_comma p)"
  shows "argSequence_loop st cs last_arg acc =
     (case run_items st (scan_items prev cs) of
        Inl e \<Rightarrow> Inl e
      | Inr (ns, st') \<Rightarrow>
          Inr ((acc @ ns,
                if cs = [] then last_arg else if is_comma (last cs) then None else Some (last cs)),
               st'))"
  using assms
proof (induction cs arbitrary: st prev last_arg acc)
  case Nil
  then show ?case by simp
next
  case (Cons c cs)
  show ?case
  proof (cases "is_comma c")
    case True
    have ih: "argSequence_loop s cs None a =
     (case run_items s (scan_items (Some c) cs) of
        Inl e \<Rightarrow> Inl e
      | Inr (ns, st') \<Rightarrow>
          Inr ((a @ ns,
                if cs = [] then None else if is_comma (last cs) then None else Some (last cs)),
               st'))" for s a
      using Cons.IH[of None "Some c" s a] True by simp
    show ?thesis
      using True Cons.prems
      by (cases last_arg; cases prev)
         (auto simp: ih item_at_def is_comma_def split: sum.splits prod.splits)
  next
    case False
    have ih: "argSequence_loop s cs (Some c) a =
     (case run_items s (scan_items (Some c) cs) of
        Inl e \<Rightarrow> Inl e
      | Inr (ns, st') \<Rightarrow>
          Inr ((a @ ns,
                if cs = [] then Some c else if is_comma (last cs) then None else Some (last cs)),
               st'))" for s a
      using Cons.IH[of "Some c" "Some c" s a] False by simp
    show ?thesis
      using False
      by (auto simp: ih item_at_def is_comma_def split: sum.splits prod.splits)
  qed
qed

text \<open>
  Claim C5. Without an argument context \<open>argSequence\<close> returns the empty list. With
  one, it carries out exactly the items of the policy above, in order, on the children
  of the context; on a context without children it throws (it reads the text of the
  element at index \<open>-1\<close>). The witness builds \<open>sum(x,,y)\<close>, with an empty argument
  between \<open>x\<close> and \<open>y\<close> at the span of the second comma, and \<open>sum(x,)\<close>, with an empty
  argument after \<open>x\<close> at the span of the comma.
\<close>

theorem argSequence_refines:
  "argSequence st None = Inr ([], st)
   \<and> argSequence st (Some a) =
       (if children a = [] then Inl TypeError else run_items st (arg_items (children a)))"
proof -
  have loop: "argSequence_loop st (children a) None [] =
     (case run_items st (scan_items None (children a)) of
        Inl e \<Rightarrow> Inl e
      | Inr (ns, st') \<Rightarrow>
          Inr (([] @ ns, if children a = [] then None
                    else if is_comma (last (children a)) then None
                    else Some (last (children a))), st'))"
    by (rule argSequence_loop_scan[of None None]) simp
  show ?thesis
    by (auto simp: argSequence.simps loop arg_items_def run_items_append is_comma_def next_id_def
        split: sum.splits prod.splits)
qed

theorem argSequence_refines_witness:
  "map_sum id fst (createNodeTree (call ''sum''
       [var 4 ''x'', terminal (tok 5 5 '',''), terminal (tok 6 6 '',''), var 7 ''y''] 8
       ''sum(x,,y)'')) =
     Inr (FunctionCall 3 (Some 0) (Some 9) ''sum''
           [Var 0 (Some 4) (Some 5) ''x'', EmptyArgument 1 (Some 6) (Some 7),
            Var 2 (Some 7) (Some 8) ''y''] [])
   \<and> map_sum id fst (createNodeTree (call ''sum''
       [var 4 ''x'', terminal (tok 5 5 '','')] 6 ''sum(x,)'')) =
     Inr (FunctionCall 2 (Some 0) (Some 7) ''sum''
           [Var 0 (Some 4) (Some 5) ''x'', EmptyArgument 1 (Some 5) (Some 6)] [])"
proof -
  let ?seq1 = "Cst [] [var 4 ''x'', terminal (tok 5 5 '',''), terminal (tok 6 6 '',''), var 7 ''y'']
                 None None None [] None None None None [] [] None"
  let ?seq2 = "Cst [] [var 4 ''x'', terminal (tok 5 5 '','')]
                 None None None [] None None None None [] [] None"
  have 1: "map_sum id fst (argSequence initial_state (Some ?seq1)) =
     Inr [Var 0 (Some 4) (Some 5) ''x'', EmptyArgument 1 (Some 6) (Some 7),
          Var 2 (Some 7) (Some 8) ''y'']"
    using argSequence_refines[of initial_state ?seq1]
    by (simp add: arg_items_def item_at_def is_comma_def createFromAST_var initial_state_def
        next_id_def tok_def)
  have 2: "map_sum id fst (argSequence initial_state (Some ?seq2)) =
     Inr [Var 0 (Some 4) (Some 5) ''x'', EmptyArgument 1 (Some 5) (Some 6)]"
    using argSequence_refines[of initial_state ?seq2]
    by (simp add: arg_items_def item_at_def is_comma_def createFromAST_var initial_state_def
        next_id_def tok_def)
  from 1 obtain s1 where s1: "argSequence initial_state (Some ?seq1) =
     Inr ([Var 0 (Some 4) (Some 5) ''x'', EmptyArgument 1 (Some 6) (Some 7),
          Var 2 (Some 7) (Some 8) ''y''], s1)" and n1: "nodeId s1 = 3"
    using argSequence_refines[of initial_state ?seq1]
    by (auto simp: arg_items_def item_at_def is_comma_def createFromAST_var initial_state_def
        next_id_def tok_def)
  from 2 obtain s2 where s2: "argSequence initial_state (Some ?seq2) =
     Inr ([Var 0 (Some 4) (Some 5) ''x'', EmptyArgument 1 (Some 5) (Some 6)], s2)"
     and n2: "nodeId s2 = 2"
    using argSequence_refines[of initial_state ?seq2]
    by (auto simp: arg_items_def item_at_def is_comma_def createFromAST_var initial_state_def
        next_id_def tok_def)
  show ?thesis
    by (simp add: createNodeTree_def createFromAST_call_args[OF s1] createFromAST_call_args[OF s2]
        n1 n2)
qed


section \<open>The nodes of a tree\<close>

text \<open>
  \<open>all_nodes\<close> lists every node of a tree, children before their parent and from left to
  right (positional before named arguments). \<open>preorder\<close> lists a node before its children,
  with the children the specification of the walker names: the bound expression of a
  definition, the positional arguments of a call, the values of an array, the values of
  the entries of an object; every other kind is a leaf. \<open>hidden\<close> lists the remaining nodes:
  those below a pipe, below a named argument or among the named arguments of a call.
\<close>

fun all_nodes :: "node \<Rightarrow> node list" where
  "all_nodes (Definition i s e nm ex) = all_nodes ex @ [Definition i s e nm ex]"
| "all_nodes (NumberNode i s e v) = [NumberNode i s e v]"
| "all_nodes (StringNode i s e v) = [StringNode i s e v]"
| "all_nodes (BooleanNode i s e v) = [BooleanNode i s e v]"
| "all_nodes (ArrayNode i s e vals) = concat (map all_nodes vals) @ [ArrayNode i s e vals]"
| "all_nodes (ObjectNode i s e entries) =
     concat (map (\<lambda>en. all_nodes (snd en)) entries) @ [ObjectNode i s e entries]"
| "all_nodes (Var i s e nm) = [Var i s e nm]"
| "all_nodes (FunctionCall i s e nm args namedArgs) =
     concat (map all_nodes args) @ concat (map all_nodes namedArgs)
       @ [FunctionCall i s e nm args namedArgs]"
| "all_nodes (NamedArgument i s e nm v) = all_nodes v @ [NamedArgument i s e nm v]"
| "all_nodes (PipeOp i s e l r) = all_nodes l @ all_nodes r @ [PipeOp i s e l r]"
| "all_nodes (ErrorNode i s e m) = [ErrorNode i s e m]"
| "all_nodes (EmptyArgument i s e) = [EmptyArgument i s e]"

fun preorder :: "node \<Rightarrow> node list" where
  "preorder (Definition i s e nm ex) = Definition i s e nm ex # preorder ex"
| "preorder (FunctionCall i s e nm args namedArgs) =
     FunctionCall i s e nm args namedArgs # concat (map preorder args)"
| "preorder (ArrayNode i s e vals) = ArrayNode i s e vals # concat (map preorder vals)"
| "preorder (ObjectNode i s e entries) =
     ObjectNode i s e entries # concat (map (\<lambda>en. preorder (snd en)) entries)"
| "preorder (NumberNode i s e v) = [NumberNode i s e v]"
| "preorder (StringNode i s e v) = [StringNode i s e v]"
| "preorder (BooleanNode i s e v) = [BooleanNode i s e v]"
| "preorder (Var i s e nm) = [Var i s e nm]"
| "preorder (NamedArgument i s e nm v) = [NamedArgument i s e nm v]"
| "preorder (PipeOp i s e l r) = [PipeOp i s e l r]"
| "preorder (ErrorNode i s e m) = [ErrorNode i s e m]"
| "preorder (EmptyArgument i s e) = [EmptyArgument i s e]"

fun hidden :: "node \<Rightarrow> node list" where
  "hidden (Definition i s e nm ex) = hidden ex"
| "hidden (FunctionCall i s e nm args namedArgs) =
     concat (map hidden args) @ concat (map all_nodes namedArgs)"
| "hidden (ArrayNode i s e vals) = concat (map hidden vals)"
| "hidden (ObjectNode i s e entries) = concat (map (\<lambda>en. hidden (snd en)) entries)"
| "hidden (NamedArgument i s e nm v) = all_nodes v"
| "hidden (PipeOp i s e l r) = all_nodes l @ all_nodes r"
| "hidden (NumberNode i s e v) = []"
| "hidden (StringNode i s e v) = []"
| "hidden (BooleanNode i s e v) = []"
| "hidden (Var i s e nm) = []"
| "hidden (ErrorNode i s e m) = []"
| "hidden (EmptyArgument i s e) = []"

text \<open>
  The nodes of a sequence of trees. \<open>ids_ok a b\<close>: their ids are pairwise distinct and lie
  in \<open>[a, b)\<close>, and the ids of the variables among them increase from left to right.
  \<open>built st ns st'\<close>: what building the trees \<open>ns\<close> from state \<open>st\<close> to state \<open>st'\<close> does to
  the node list, the input list and the id counter.
\<close>

definition forest :: "node list \<Rightarrow> node list" where
  "forest ns = concat (map all_nodes ns)"

definition ids_ok :: "nat \<Rightarrow> nat \<Rightarrow> node list \<Rightarrow> bool" where
  "ids_ok a b ns \<longleftrightarrow>
     distinct (map node_id (forest ns)) \<and>
     (\<forall>m \<in> set (forest ns). a \<le> node_id m \<and> node_id m < b) \<and>
     sorted_wrt (<) (map node_id (filter is_Var (forest ns)))"

definition built :: "state \<Rightarrow> node list \<Rightarrow> state \<Rightarrow> bool" where
  "built st ns st' \<longleftrightarrow>
     nodes st' = nodes st @ filter (\<lambda>m. \<not> is_EmptyArgument m) (forest ns) \<and>
     inputs st' = inputs st @ filter is_Var (forest ns) \<and>
     nodeId st \<le> nodeId st' \<and>
     ids_ok (nodeId st) (nodeId st') ns"

definition builds_ok :: "cst \<Rightarrow> bool" where
  "builds_ok c \<longleftrightarrow> (\<forall>s m s'. createFromAST s c = Inr (m, s') \<longrightarrow> built s [m] s')"

lemma forest_simps [simp]:
  "forest [] = []" "forest (n # ns) = all_nodes n @ forest ns"
  "forest (xs @ ys) = forest xs @ forest ys"
  by (simp_all add: forest_def)

lemma ids_ok_Nil [simp]: "ids_ok a b []"
  by (simp add: ids_ok_def)

lemma ids_ok_append:
  assumes "ids_ok a b xs" "ids_ok b c ys" "a \<le> b" "b \<le> c"
  shows "ids_ok a c (xs @ ys)"
  using assms unfolding ids_ok_def
  by (fastforce simp: sorted_wrt_append)

lemma built_Nil [simp]: "built st [] st"
  by (simp add: built_def)

lemma built_append:
  "built st xs st1 \<Longrightarrow> built st1 ys st2 \<Longrightarrow> built st (xs @ ys) st2"
  unfolding built_def using ids_ok_append by auto

lemma built_Cons:
  "built st [x] st1 \<Longrightarrow> built st1 ys st2 \<Longrightarrow> built st (x # ys) st2"
  using built_append[of st "[x]" st1 ys st2] by simp

lemma built_frame:
  "built st ns st1 \<Longrightarrow> nodes st0 = nodes st \<Longrightarrow> inputs st0 = inputs st \<Longrightarrow>
   nodeId st0 = nodeId st \<Longrightarrow> built st0 ns st1"
  by (simp add: built_def)

lemma built_push_token [simp]: "built (push_token t st) ns st' = built st ns st'"
  by (simp add: built_def push_token_def)

lemma built_leaf:
  assumes "all_nodes p = [p]" "node_id p = nodeId st"
    and "nodes st' = nodes st @ filter (\<lambda>m. \<not> is_EmptyArgument m) [p]"
    and "inputs st' = inputs st @ filter is_Var [p]"
    and "nodeId st' = Suc (nodeId st)"
  shows "built st [p] st'"
  using assms by (simp add: built_def ids_ok_def)

lemma built_post:
  assumes "built st cs st1" "all_nodes p = forest cs @ [p]" "node_id p = nodeId st1"
    and "\<not> is_Var p" "\<not> is_EmptyArgument p"
    and "nodes st' = nodes st1 @ [p]" "inputs st' = inputs st1"
    and "nodeId st' = Suc (nodeId st1)"
  shows "built st [p] st'"
  using assms unfolding built_def ids_ok_def
  by (fastforce simp: sorted_wrt_append)

lemma built_pre:
  assumes "built sA cs st1" "nodes sA = nodes st" "inputs sA = inputs st"
    and "nodeId sA = Suc (nodeId st)"
    and "all_nodes p = forest cs @ [p]" "node_id p = nodeId st"
    and "\<not> is_Var p" "\<not> is_EmptyArgument p"
    and "nodes st' = nodes st1 @ [p]" "inputs st' = inputs st1"
    and "nodeId st' = nodeId st1"
  shows "built st [p] st'"
  using assms unfolding built_def ids_ok_def
  by (fastforce simp: sorted_wrt_append)

lemma builds_okD: "builds_ok c \<Longrightarrow> createFromAST s c = Inr (m, s') \<Longrightarrow> built s [m] s'"
  by (simp add: builds_ok_def)

lemma built_empty: "built s [EmptyArgument (nodeId s) a b] (next_id s)"
  by (simp add: built_def ids_ok_def next_id_def)

lemma exprSequence_map_built:
  "\<forall>c. Some c \<in> set cs \<longrightarrow> builds_ok c \<Longrightarrow> exprSequence_map st cs = Inr (ms, st') \<Longrightarrow>
   built st ms st'"
proof (induction cs arbitrary: st ms st')
  case Nil
  then show ?case by simp
next
  case (Cons c cs)
  from Cons.prems(2) obtain x n st1 ns where c: "c = Some x"
    and x: "createFromAST st x = Inr (n, st1)"
    and rest: "exprSequence_map st1 cs = Inr (ns, st')" and ms: "ms = n # ns"
    by (auto split: option.splits sum.splits prod.splits)
  have "built st [n] st1" using Cons.prems(1) c x by (auto simp: builds_ok_def)
  moreover have "built st1 ns st'" using Cons.IH[OF _ rest] Cons.prems(1) by simp
  ultimately show ?case unfolding ms by (rule built_Cons)
qed

lemma argSequence_loop_built:
  "\<forall>c \<in> set cs. builds_ok c \<Longrightarrow> argSequence_loop st cs l acc = Inr ((res, l'), st') \<Longrightarrow>
   \<exists>new. res = acc @ new \<and> built st new st'"
proof (induction cs arbitrary: st l acc res l' st')
  case Nil
  then show ?case by simp
next
  case (Cons c cs)
  have oks: "\<forall>c \<in> set cs. builds_ok c" using Cons.prems(1) by simp
  show ?case
  proof (cases "getText c = '',''")
    case True
    show ?thesis
    proof (cases l)
      case None
      let ?e = "EmptyArgument (nodeId st) (fst (getStartStop c)) (snd (getStartStop c))"
      from True None Cons.prems(2)
      have rest: "argSequence_loop (next_id st) cs None (acc @ [?e]) = Inr ((res, l'), st')"
        by (auto split: prod.splits)
      from Cons.IH[OF oks rest]
      obtain new where r: "res = (acc @ [?e]) @ new" and b: "built (next_id st) new st'"
        by blast
      from built_Cons[OF built_empty b] have "built st (?e # new) st'" .
      with r show ?thesis by (intro exI[of _ "?e # new"]) simp
    next
      case (Some x)
      with True Cons.prems(2)
      have rest: "argSequence_loop st cs None acc = Inr ((res, l'), st')" by simp
      from Cons.IH[OF oks rest] show ?thesis .
    qed
  next
    case False
    with Cons.prems(2) obtain x st1 where x: "createFromAST st c = Inr (x, st1)"
      and rest: "argSequence_loop st1 cs (Some c) (acc @ [x]) = Inr ((res, l'), st')"
      by (auto split: sum.splits prod.splits)
    from Cons.IH[OF oks rest] obtain new where r: "res = (acc @ [x]) @ new"
      and b: "built st1 new st'"
      by blast
    have "built st [x] st1" using x Cons.prems(1) by (auto simp: builds_ok_def)
    from built_Cons[OF this b] r show ?thesis by (intro exI[of _ "x # new"]) simp
  qed
qed

lemma argSequence_built:
  assumes "\<forall>a. args = Some a \<longrightarrow> (\<forall>c \<in> set (children a). builds_ok c)"
    and r: "argSequence st args = Inr (res, st')"
  shows "built st res st'"
proof (cases args)
  case None
  with r show ?thesis by (simp add: argSequence.simps)
next
  case (Some a)
  from r Some obtain r0 l0 st1 where
    loop: "argSequence_loop st (children a) None [] = Inr ((r0, l0), st1)"
    by (auto simp: argSequence.simps split: sum.splits prod.splits)
  have b: "built st r0 st1"
    using argSequence_loop_built[OF _ loop] assms(1) Some by auto
  show ?thesis
    using r Some loop b built_append[OF b built_empty]
    by (auto simp: argSequence.simps split: option.splits if_splits prod.splits)
qed

lemma object_loop_built:
  "\<forall>c. Some c \<in> set vals \<longrightarrow> builds_ok c \<Longrightarrow> object_loop st ks vals acc = Inr (res, st') \<Longrightarrow>
   \<exists>new. res = acc @ new \<and> built st (map snd new) st'"
proof (induction ks arbitrary: st vals acc res st')
  case Nil
  then show ?case by simp
next
  case (Cons k ks)
  have tl: "\<forall>c. Some c \<in> set (tl vals) \<longrightarrow> builds_ok c"
    using Cons.prems(1) by (cases vals) auto
  from Cons.prems(2) obtain tok where tok: "Token (JStr ''key'') (map_option raw_of k) = Inr tok"
    by (auto split: sum.splits)
  show ?case
  proof (cases "\<exists>key v. k = Some key \<and> nth_opt vals 0 = Some (Some v)")
    case True
    then obtain key v where kv: "k = Some key" "nth_opt vals 0 = Some (Some v)" by blast
    with Cons.prems(2) tok obtain val st1 where
      v: "createFromAST (push_token tok st) v = Inr (val, st1)"
      and rest: "object_loop st1 ks (tl vals) (acc @ [(sym_text key, val)]) = Inr (res, st')"
      by (auto split: sum.splits prod.splits)
    have "Some v \<in> set vals" using kv(2) by (auto dest: nth_opt_in_set)
    then have "builds_ok v" using Cons.prems(1) by blast
    from builds_okD[OF this v] have bv: "built st [val] st1" by simp
    from Cons.IH[OF tl rest] obtain new where
      r: "res = (acc @ [(sym_text key, val)]) @ new" and b: "built st1 (map snd new) st'"
      by blast
    from built_Cons[OF bv b] r show ?thesis
      by (intro exI[of _ "(sym_text key, val) # new"]) simp
  next
    case False
    with Cons.prems(2) tok have
      rest: "object_loop (push_token tok st) ks (tl vals) acc = Inr (res, st')"
      by (auto split: option.splits)
    from Cons.IH[OF tl rest] show ?thesis by simp
  qed
qed

lemma forest_entries: "concat (map (\<lambda>en. all_nodes (snd en)) entries) = forest (map snd entries)"
  by (simp add: forest_def comp_def)

lemma forest_concat: "concat (map all_nodes ns) = forest ns"
  by (simp add: forest_def)

lemma createFromAST_call_built:
  assumes oks: "\<forall>argsCtx a c. cargs ast = Some argsCtx \<longrightarrow>
      (cargs argsCtx = Some a \<or> cnamedArgs argsCtx = Some a) \<longrightarrow> c \<in> set (children a) \<longrightarrow>
      builds_ok c"
    and r: "createFromAST_call st start stop ast = Inr (n, st')"
  shows "built st [n] st'"
proof -
  have "\<exists>args namedArgs st2. built st (args @ namedArgs) st2
      \<and> (\<exists>nm. n = FunctionCall (nodeId st2) start stop nm args namedArgs)
      \<and> nodes st' = nodes st2 @ [n] \<and> inputs st' = inputs st2
      \<and> nodeId st' = Suc (nodeId st2)"
  proof (cases "cargs ast")
    case None
    have "built st ([] @ []) st" by simp
    with r None show ?thesis
      by (intro exI[of _ "[]"] exI[of _ st])
         (auto simp: createFromAST_call.simps push_node_def push_token_def next_id_def
          split: option.splits sum.splits)
  next
    case (Some argsCtx)
    with r obtain args st1 namedArgs st2 where
      a: "argSequence st (cargs argsCtx) = Inr (args, st1)"
      and b: "argSequence st1 (cnamedArgs argsCtx) = Inr (namedArgs, st2)"
      by (auto simp: createFromAST_call.simps split: sum.splits prod.splits)
    have "built st args st1"
      using argSequence_built[OF _ a] oks Some by blast
    moreover have "built st1 namedArgs st2"
      using argSequence_built[OF _ b] oks Some by blast
    ultimately have "built st (args @ namedArgs) st2" by (rule built_append)
    with r Some a b show ?thesis
      by (intro exI[of _ args] exI[of _ namedArgs] exI[of _ st2])
         (auto simp: createFromAST_call.simps push_node_def push_token_def next_id_def
          split: option.splits sum.splits)
  qed
  then obtain args namedArgs st2 nm where parts: "built st (args @ namedArgs) st2"
    and n: "n = FunctionCall (nodeId st2) start stop nm args namedArgs"
    and st': "nodes st' = nodes st2 @ [n]" "inputs st' = inputs st2"
      "nodeId st' = Suc (nodeId st2)"
    by blast
  show ?thesis
    by (rule built_post[OF parts]) (simp_all add: n st' forest_concat)
qed

lemma createFromAST_builds_ok: "builds_ok ast"
proof (induction "size ast" arbitrary: ast rule: less_induct)
  case less
  have IH: "builds_ok c" if "size c < size ast" for c
    using less that by blast
  have child: "builds_ok c" if "nth_opt (children ast) i = Some c" for i c
    using IH nth_child_size[OF that] .
  show ?case
    unfolding builds_ok_def
  proof (intro allI impI)
    fix st n st'
    assume r: "createFromAST st ast = Inr (n, st')"
    note defs = createFromAST.simps[of st ast] push_node_def next_id_def push_token_def
    have transparent: "built st [n] st'"
      if "\<exists>i c. nth_opt (children ast) i = Some c \<and> createFromAST st c = Inr (n, st')"
      using that child builds_okD by blast
    have prefix: "built st [n] st'"
      if "\<exists>tok c x st1. nth_opt (children ast) 2 = Some c
          \<and> createFromAST (next_id (push_token tok st)) c = Inr (x, st1)
          \<and> ((\<exists>a b nm. n = Definition (nodeId st) a b nm x)
             \<or> (\<exists>a b nm. n = NamedArgument (nodeId st) a b nm x))
          \<and> nodes st' = nodes st1 @ [n] \<and> inputs st' = inputs st1 \<and> nodeId st' = nodeId st1"
    proof -
      from that obtain tok c x st1 where c: "nth_opt (children ast) 2 = Some c"
        and x: "createFromAST (next_id (push_token tok st)) c = Inr (x, st1)"
        and n: "(\<exists>a b nm. n = Definition (nodeId st) a b nm x)
             \<or> (\<exists>a b nm. n = NamedArgument (nodeId st) a b nm x)"
        and st': "nodes st' = nodes st1 @ [n]" "inputs st' = inputs st1" "nodeId st' = nodeId st1"
        by blast
      from builds_okD[OF child[OF c] x] show ?thesis
        by (rule built_pre) (use n st' in \<open>auto simp: next_id_def push_token_def\<close>)
    qed
    have exprs: "built st [n] st'"
      if "\<exists>i j args st1 a b nm.
          (exprSequence_map st [nth_opt (children ast) i, nth_opt (children ast) j]
             = Inr (args, st1)
           \<or> exprSequence_map st [nth_opt (children ast) i] = Inr (args, st1))
          \<and> n = FunctionCall (nodeId st1) a b nm args []
          \<and> nodes st' = nodes st1 @ [n] \<and> inputs st' = inputs st1
          \<and> nodeId st' = Suc (nodeId st1)"
    proof -
      from that obtain i j args st1 a b nm where
        e: "exprSequence_map st [nth_opt (children ast) i, nth_opt (children ast) j]
             = Inr (args, st1)
           \<or> exprSequence_map st [nth_opt (children ast) i] = Inr (args, st1)"
        and n: "n = FunctionCall (nodeId st1) a b nm args []"
        and st': "nodes st' = nodes st1 @ [n]" "inputs st' = inputs st1"
          "nodeId st' = Suc (nodeId st1)"
        by blast
      have ok: "\<forall>c. Some c \<in> set [nth_opt (children ast) i, nth_opt (children ast) j]
                 \<longrightarrow> builds_ok c"
        using child by auto
      have "built st args st1"
        using e exprSequence_map_built[OF ok] exprSequence_map_built[of "[nth_opt (children ast) i]"] ok
        by auto
      then show ?thesis
        by (rule built_post) (simp_all add: n st' forest_concat)
    qed
    have leaf: "built st [n] st'"
      if "all_nodes n = [n] \<and> node_id n = nodeId st \<and> \<not> is_EmptyArgument n
          \<and> nodes st' = nodes st @ [n] \<and> inputs st' = inputs st @ filter is_Var [n]
          \<and> nodeId st' = Suc (nodeId st)"
      using that by (intro built_leaf) simp_all
    have call: "built st [n] st'"
      if "\<exists>inner a b. (inner = ast \<or> nth_opt (children ast) 0 = Some inner)
          \<and> createFromAST_call st a b inner = Inr (n, st')"
    proof -
      from that obtain inner a b where
        inner: "inner = ast \<or> nth_opt (children ast) 0 = Some inner"
        and c: "createFromAST_call st a b inner = Inr (n, st')"
        by blast
      have le: "size inner \<le> size ast"
        using inner nth_child_size[of ast 0 inner] by auto
      have "builds_ok x" if "cargs inner = Some argsCtx"
        "cargs argsCtx = Some y \<or> cnamedArgs argsCtx = Some y" "x \<in> set (children y)"
        for argsCtx y x
      proof -
        have "size x < size y" using that(3) by (rule size_children)
        moreover have "size y < size argsCtx"
          using that(2) size_cargs size_cnamedArgs by blast
        moreover have "size argsCtx < size inner" using that(1) by (rule size_cargs)
        ultimately show ?thesis using le IH by simp
      qed
      then show ?thesis
        using createFromAST_call_built[OF _ c] by blast
    qed
    show "built st [n] st'"
    proof (cases "kind_of (ctype ast)")
      case K_evaluation
      with r show ?thesis
        by (intro transparent) (auto simp: defs split: prod.splits option.splits; blast)
    next
      case K_simple
      with r show ?thesis
        by (intro transparent) (auto simp: defs split: prod.splits option.splits; blast)
    next
      case K_group
      with r show ?thesis
        by (intro transparent) (auto simp: defs split: prod.splits option.splits; blast)
    next
      case K_definition
      with r show ?thesis
        by (intro prefix) (auto simp: defs split: prod.splits option.splits sum.splits; blast)
    next
      case K_named_argument
      with r show ?thesis
        by (intro prefix) (auto simp: defs split: prod.splits option.splits sum.splits; blast)
    next
      case K_select_expr
      with r show ?thesis
        by (intro exprs)
           (auto simp: defs exprSequence.simps simp del: exprSequence_map.simps
             split: prod.splits sum.splits; blast)
    next
      case K_unary
      with r show ?thesis
        by (intro exprs)
           (auto simp: defs exprSequence.simps simp del: exprSequence_map.simps
             split: prod.splits sum.splits; blast)
    next
      case K_binary
      with r show ?thesis
        by (intro exprs)
           (auto simp: defs exprSequence.simps simp del: exprSequence_map.simps
             split: prod.splits sum.splits; blast)
    next
      case K_number
      with r show ?thesis
        by (intro leaf)
           (auto simp: defs split: prod.splits option.splits sum.splits if_splits)
    next
      case K_boolean
      with r show ?thesis
        by (intro leaf) (auto simp: defs split: prod.splits option.splits sum.splits)
    next
      case K_string
      with r show ?thesis
        by (intro leaf) (auto simp: defs split: prod.splits option.splits sum.splits)
    next
      case K_var
      with r show ?thesis
        by (intro leaf) (auto simp: defs Let_def split: prod.splits option.splits sum.splits)
    next
      case K_default
      with r show ?thesis
        by (intro leaf) (auto simp: defs split: prod.splits option.splits)
    next
      case K_unwrap_call
      with r show ?thesis
        by (intro call) (auto simp: defs split: prod.splits option.splits; blast)
    next
      case K_call
      with r show ?thesis
        by (intro call) (auto simp: defs split: prod.splits option.splits; blast)
    next
      case K_select_id
      with r have "\<exists>c val st1 a b t. nth_opt (children ast) 0 = Some c
          \<and> createFromAST st c = Inr (val, st1)
          \<and> n = FunctionCall (Suc (nodeId st1)) a b ''select''
                 [val, StringNode (nodeId st1) a b t] []
          \<and> nodes st' = nodes st1 @ [StringNode (nodeId st1) a b t, n]
          \<and> inputs st' = inputs st1 \<and> nodeId st' = Suc (Suc (nodeId st1))"
        by (auto simp: defs K_select_id split: prod.splits option.splits sum.splits; blast)
      then obtain c val st1 a b t where c: "nth_opt (children ast) 0 = Some c"
        and v: "createFromAST st c = Inr (val, st1)"
        and n: "n = FunctionCall (Suc (nodeId st1)) a b ''select''
                 [val, StringNode (nodeId st1) a b t] []"
        and st': "nodes st' = nodes st1 @ [StringNode (nodeId st1) a b t, n]"
          "inputs st' = inputs st1" "nodeId st' = Suc (Suc (nodeId st1))"
        by blast
      let ?ident = "StringNode (nodeId st1) a b t"
      let ?s2 = "st1\<lparr>nodeId := Suc (nodeId st1), nodes := nodes st1 @ [?ident]\<rparr>"
      have "built st1 [?ident] ?s2" by (rule built_leaf) simp_all
      with builds_okD[OF child[OF c] v] have "built st [val, ?ident] ?s2" by (rule built_Cons)
      then show ?thesis
        by (rule built_post) (simp_all add: n st')
    next
      case K_pipe
      with r have "\<exists>l left st1 rt right st2 a b. nth_opt (children ast) 0 = Some l
          \<and> createFromAST (next_id st) l = Inr (left, st1)
          \<and> nth_opt (children ast) 2 = Some rt \<and> createFromAST st1 rt = Inr (right, st2)
          \<and> n = PipeOp (nodeId st) a b left right
          \<and> nodes st' = nodes st2 @ [n] \<and> inputs st' = inputs st2 \<and> nodeId st' = nodeId st2"
        by (auto simp: defs K_pipe split: prod.splits option.splits sum.splits; blast)
      then obtain l left st1 rt right st2 a b where l: "nth_opt (children ast) 0 = Some l"
        and bl: "createFromAST (next_id st) l = Inr (left, st1)"
        and rt: "nth_opt (children ast) 2 = Some rt"
        and br: "createFromAST st1 rt = Inr (right, st2)"
        and n: "n = PipeOp (nodeId st) a b left right"
        and st': "nodes st' = nodes st2 @ [n]" "inputs st' = inputs st2" "nodeId st' = nodeId st2"
        by blast
      from builds_okD[OF child[OF l] bl] builds_okD[OF child[OF rt] br]
      have "built (next_id st) [left, right] st2" by (rule built_Cons)
      then show ?thesis
        by (rule built_pre) (simp_all add: n st' next_id_def)
    next
      case K_array
      with r have "\<exists>vals st1 a b.
          ((vals = [] \<and> st1 = st)
           \<or> (\<exists>ctx seq items. nth_opt (children ast) 0 = Some ctx
                 \<and> nth_opt (children ctx) 1 = Some seq \<and> citems seq = Some items
                 \<and> exprSequence_map st (map Some items) = Inr (vals, st1)))
          \<and> n = ArrayNode (nodeId st1) a b vals
          \<and> nodes st' = nodes st1 @ [n] \<and> inputs st' = inputs st1
          \<and> nodeId st' = Suc (nodeId st1)"
        by (auto simp: defs K_array exprSequence.simps simp del: exprSequence_map.simps
            split: prod.splits option.splits sum.splits; blast)
      then obtain vals st1 a b where
        v: "(vals = [] \<and> st1 = st)
           \<or> (\<exists>ctx seq items. nth_opt (children ast) 0 = Some ctx
                 \<and> nth_opt (children ctx) 1 = Some seq \<and> citems seq = Some items
                 \<and> exprSequence_map st (map Some items) = Inr (vals, st1))"
        and n: "n = ArrayNode (nodeId st1) a b vals"
        and st': "nodes st' = nodes st1 @ [n]" "inputs st' = inputs st1"
          "nodeId st' = Suc (nodeId st1)"
        by blast
      have "built st vals st1"
        using v
      proof
        assume "vals = [] \<and> st1 = st"
        then show ?thesis by simp
      next
        assume "\<exists>ctx seq items. nth_opt (children ast) 0 = Some ctx
                 \<and> nth_opt (children ctx) 1 = Some seq \<and> citems seq = Some items
                 \<and> exprSequence_map st (map Some items) = Inr (vals, st1)"
        then obtain ctx seq items where i: "nth_opt (children ast) 0 = Some ctx"
          "nth_opt (children ctx) 1 = Some seq" "citems seq = Some items"
          and e: "exprSequence_map st (map Some items) = Inr (vals, st1)"
          by blast
        show ?thesis
          by (rule exprSequence_map_built[OF _ e]) (use IH size_array_item[OF i] in auto)
      qed
      then show ?thesis
        by (rule built_post) (simp_all add: n st' forest_concat)
    next
      case K_object
      with r have "\<exists>ctx entries st1 a b. nth_opt (children ast) 0 = Some ctx
          \<and> object_loop st (ckeys ctx) (cvals ctx) [] = Inr (entries, st1)
          \<and> n = ObjectNode (nodeId st1) a b entries
          \<and> nodes st' = nodes st1 @ [n] \<and> inputs st' = inputs st1
          \<and> nodeId st' = Suc (nodeId st1)"
        by (auto simp: defs K_object split: prod.splits option.splits sum.splits; blast)
      then obtain ctx entries st1 a b where ctx: "nth_opt (children ast) 0 = Some ctx"
        and o: "object_loop st (ckeys ctx) (cvals ctx) [] = Inr (entries, st1)"
        and n: "n = ObjectNode (nodeId st1) a b entries"
        and st': "nodes st' = nodes st1 @ [n]" "inputs st' = inputs st1"
          "nodeId st' = Suc (nodeId st1)"
        by blast
      have "\<exists>new. entries = [] @ new \<and> built st (map snd new) st1"
        by (rule object_loop_built[OF _ o]) (use IH size_object_val[OF ctx] in auto)
      then have "built st (map snd entries) st1" by simp
      then show ?thesis
        by (rule built_post) (simp_all add: n st' forest_entries)
    qed
  qed
qed
lemma mset_concat_split:
  assumes "\<And>x. x \<in> set xs \<Longrightarrow> mset (f x) = mset (g x) + mset (h x)"
  shows "mset (concat (map f xs)) = mset (concat (map g xs)) + mset (concat (map h xs))"
  using assms by (induction xs) auto

lemma all_nodes_split: "mset (all_nodes n) = mset (preorder n) + mset (hidden n)"
proof (induction n)
  case (ArrayNode i s e vals)
  then show ?case using mset_concat_split[of vals all_nodes preorder hidden] by simp
next
  case (ObjectNode i s e entries)
  have "mset (concat (map (\<lambda>en. all_nodes (snd en)) entries)) =
        mset (concat (map (\<lambda>en. preorder (snd en)) entries))
        + mset (concat (map (\<lambda>en. hidden (snd en)) entries))"
    by (rule mset_concat_split) (use ObjectNode in \<open>auto simp: snds.simps\<close>)
  then show ?case by simp
next
  case (FunctionCall i s e nm args namedArgs)
  then show ?case using mset_concat_split[of args all_nodes preorder hidden] by simp
qed simp_all

lemma self_in_all_nodes: "n \<in> set (all_nodes n)"
  by (cases n) simp_all

lemma all_nodes_subtree: "p \<in> set (all_nodes n) \<Longrightarrow> set (all_nodes p) \<subseteq> set (all_nodes n)"
proof (induction n)
  case (ObjectNode i s e entries)
  then show ?case by (fastforce simp: snds.simps)
qed fastforce+

lemma operands_in_all_nodes:
  "PipeOp i s e l r \<in> set (all_nodes n) \<Longrightarrow> l \<in> set (all_nodes n) \<and> r \<in> set (all_nodes n)"
  using all_nodes_subtree[of "PipeOp i s e l r" n] self_in_all_nodes[of l] self_in_all_nodes[of r]
  by auto

lemma operands_hidden:
  "PipeOp i s e l r \<in> set (all_nodes n) \<Longrightarrow> l \<in> set (hidden n) \<and> r \<in> set (hidden n)"
proof (induction n)
  case (ObjectNode j s' e' entries)
  from ObjectNode.prems obtain en where en: "en \<in> set entries"
    and p: "PipeOp i s e l r \<in> set (all_nodes (snd en))"
    by auto
  have "snd en \<in> Basic_BNFs.snds en" by (simp add: snds.simps)
  from ObjectNode.IH[OF en this p] en show ?case by auto
next
  case (PipeOp j s' e' a b)
  then show ?case
    using operands_in_all_nodes[of i s e l r a] operands_in_all_nodes[of i s e l r b]
      self_in_all_nodes[of a] self_in_all_nodes[of b]
    by auto
next
  case (NamedArgument j s' e' nm v)
  then show ?case using operands_in_all_nodes[of i s e l r v] by auto
next
  case (FunctionCall j s' e' nm args namedArgs)
  then show ?case using operands_in_all_nodes[of i s e l r] by fastforce
qed fastforce+

lemma visited_hidden_disjoint:
  assumes "distinct (map node_id (all_nodes n))"
  shows "distinct (map node_id (preorder n))"
    and "node_id ` set (preorder n) \<inter> node_id ` set (hidden n) = {}"
proof -
  have "mset (map node_id (all_nodes n)) = mset (map node_id (preorder n @ hidden n))"
    using all_nodes_split[of n] by (metis mset_append mset_map)
  then have "distinct (map node_id (preorder n @ hidden n))"
    using assms mset_eq_imp_distinct_iff by blast
  then show "distinct (map node_id (preorder n))"
    and "node_id ` set (preorder n) \<inter> node_id ` set (hidden n) = {}"
    by auto
qed

lemma walk_loop_forest:
  assumes "\<And>c stack. c \<in> set cs \<Longrightarrow>
     walk_loop (Some c # stack) =
       (case walk_loop stack of Inl e \<Rightarrow> Inl e | Inr vs \<Rightarrow> Inr (preorder c @ vs))"
  shows "walk_loop (map Some cs @ stack) =
       (case walk_loop stack of Inl e \<Rightarrow> Inl e
        | Inr vs \<Rightarrow> Inr (concat (map preorder cs) @ vs))"
  using assms
  by (induction cs) (auto split: sum.splits)

lemma walk_loop_preorder:
  "walk_loop (Some n # stack) =
     (case walk_loop stack of Inl e \<Rightarrow> Inl e | Inr vs \<Rightarrow> Inr (preorder n @ vs))"
proof (induction n arbitrary: stack)
  case (ArrayNode i s e vals)
  show ?case
    using walk_loop_forest[of vals stack] ArrayNode
    by (auto simp: walk_switch_def push_reversed_append split: sum.splits)
next
  case (ObjectNode i s e entries)
  have "walk_loop (map Some (map snd entries) @ stack) =
       (case walk_loop stack of Inl e \<Rightarrow> Inl e
        | Inr vs \<Rightarrow> Inr (concat (map preorder (map snd entries)) @ vs))"
    by (rule walk_loop_forest) (use ObjectNode in \<open>auto simp: snds.simps\<close>)
  then show ?case
    by (auto simp: walk_switch_def push_reversed_append comp_def split: sum.splits)
next
  case (FunctionCall i s e nm args namedArgs)
  show ?case
    using walk_loop_forest[of args stack] FunctionCall
    by (auto simp: walk_switch_def push_reversed_append split: sum.splits)
qed (auto simp: walk_switch_def split: sum.splits)

lemma walk_preorder: "walk root_node = Inr (preorder root_node)"
  unfolding walk_def by (subst walk_loop_preorder) simp

lemma createNodeTree_built:
  "createNodeTree c = Inr (root_node, st) \<Longrightarrow> built initial_state [root_node] st"
  using createFromAST_builds_ok[of c] by (simp add: createNodeTree_def builds_ok_def)
section \<open>Ids and the node list\<close>

text \<open>
  Claim C6, as the code has it. In one build the ids of all nodes of the tree (empty
  arguments included) are pairwise distinct and below the final counter. The node list
  holds the nodes of the tree other than empty arguments in the order in which they are
  pushed: a node after the nodes built beneath it. Its ids are distinct; they are not
  increasing in general, since a definition, a pipe and a named argument take their id
  before their children are built and are pushed after them.
\<close>

theorem node_ids_distinct:
  assumes "createNodeTree c = Inr (root_node, st)"
  shows "distinct (map node_id (all_nodes root_node))
    \<and> (\<forall>m \<in> set (all_nodes root_node). node_id m < nodeId st)
    \<and> nodes st = filter (\<lambda>m. \<not> is_EmptyArgument m) (all_nodes root_node)
    \<and> distinct (map node_id (nodes st))"
proof -
  from createNodeTree_built[OF assms]
  have d: "distinct (map node_id (all_nodes root_node))"
    and b: "\<forall>m \<in> set (all_nodes root_node). node_id m < nodeId st"
    and n: "nodes st = filter (\<lambda>m. \<not> is_EmptyArgument m) (all_nodes root_node)"
    by (simp_all add: built_def ids_ok_def initial_state_def)
  from d have "distinct (map node_id (nodes st))"
    unfolding n by (rule distinct_map_filter)
  with d b n show ?thesis by blast
qed

theorem node_ids_distinct_witness:
  "createNodeTree x_eq_42 =
     Inr (Definition 0 (Some 0) (Some 4) ''x'' (NumberNode 1 (Some 2) (Some 4) ''42''),
          \<lparr>nodeId = 2,
           nodes = [NumberNode 1 (Some 2) (Some 4) ''42'',
                    Definition 0 (Some 0) (Some 4) ''x'' (NumberNode 1 (Some 2) (Some 4) ''42'')],
           inputs = [],
           tokens = [\<lparr>tok_type = ''output-name'', tok_start = Fin 0, tok_end = Fin 1,
                       tok_text = Some ''x''\<rparr>,
                     \<lparr>tok_type = ''number-literal'', tok_start = Fin 2, tok_end = Fin 4,
                       tok_text = Some ''42''\<rparr>]\<rparr>)
   \<and> distinct (map node_id (all_nodes
         (Definition 0 (Some 0) (Some 4) ''x'' (NumberNode 1 (Some 2) (Some 4) ''42''))))
   \<and> distinct (map node_id
         [NumberNode 1 (Some 2) (Some 4) ''42'',
          Definition 0 (Some 0) (Some 4) ''x'' (NumberNode 1 (Some 2) (Some 4) ''42'')])"
proof -
  have e: "createNodeTree x_eq_42 =
     Inr (Definition 0 (Some 0) (Some 4) ''x'' (NumberNode 1 (Some 2) (Some 4) ''42''),
          \<lparr>nodeId = 2,
           nodes = [NumberNode 1 (Some 2) (Some 4) ''42'',
                    Definition 0 (Some 0) (Some 4) ''x'' (NumberNode 1 (Some 2) (Some 4) ''42'')],
           inputs = [],
           tokens = [\<lparr>tok_type = ''output-name'', tok_start = Fin 0, tok_end = Fin 1,
                       tok_text = Some ''x''\<rparr>,
                     \<lparr>tok_type = ''number-literal'', tok_start = Fin 2, tok_end = Fin 4,
                       tok_text = Some ''42''\<rparr>]\<rparr>)"
    by code_simp
  from node_ids_distinct[OF e] e show ?thesis by simp
qed

text \<open>
  Building \<open>x = 42\<close>: the definition has id 0 and its number id 1, and the node list
  holds the number before the definition, so its ids are 1, 0.
\<close>

theorem node_list_ids_not_increasing:
  "createNodeTree x_eq_42 =
     Inr (Definition 0 (Some 0) (Some 4) ''x'' (NumberNode 1 (Some 2) (Some 4) ''42''),
          \<lparr>nodeId = 2,
           nodes = [NumberNode 1 (Some 2) (Some 4) ''42'',
                    Definition 0 (Some 0) (Some 4) ''x'' (NumberNode 1 (Some 2) (Some 4) ''42'')],
           inputs = [],
           tokens = [\<lparr>tok_type = ''output-name'', tok_start = Fin 0, tok_end = Fin 1,
                       tok_text = Some ''x''\<rparr>,
                     \<lparr>tok_type = ''number-literal'', tok_start = Fin 2, tok_end = Fin 4,
                       tok_text = Some ''42''\<rparr>]\<rparr>)
   \<and> \<not> sorted_wrt (<) (map node_id
         [NumberNode 1 (Some 2) (Some 4) ''42'',
          Definition 0 (Some 0) (Some 4) ''x'' (NumberNode 1 (Some 2) (Some 4) ''42'')])"
  by code_simp

section \<open>The input list\<close>

text \<open>
  Claim C9. After a build every element of the input list is a variable node; the
  input list is the node list restricted to variable nodes, in the same order, and its
  ids increase strictly (the order of creation).
\<close>

theorem inputs_only_vars:
  assumes "createNodeTree c = Inr (root_node, st)"
  shows "(\<forall>n \<in> set (inputs st). is_Var n)
    \<and> inputs st = filter is_Var (nodes st)
    \<and> sorted_wrt (<) (map node_id (inputs st))"
proof -
  from createNodeTree_built[OF assms]
  have i: "inputs st = filter is_Var (all_nodes root_node)"
    and n: "nodes st = filter (\<lambda>m. \<not> is_EmptyArgument m) (all_nodes root_node)"
    and s: "sorted_wrt (<) (map node_id (filter is_Var (all_nodes root_node)))"
    by (simp_all add: built_def ids_ok_def initial_state_def)
  have "filter is_Var (nodes st) = filter is_Var (all_nodes root_node)"
    unfolding n by (auto simp: filter_filter intro!: filter_cong elim: node.disc(7)[THEN notE])
  with i s show ?thesis by auto
qed

theorem inputs_only_vars_witness:
  "createNodeTree (binary ''add'' ''+'' (var 0 ''x'') (var 2 ''y'') ''x+y'') =
     Inr (FunctionCall 2 (Some 0) (Some 3) ''add''
            [Var 0 (Some 0) (Some 1) ''x'', Var 1 (Some 2) (Some 3) ''y''] [],
          \<lparr>nodeId = 3,
           nodes = [Var 0 (Some 0) (Some 1) ''x'', Var 1 (Some 2) (Some 3) ''y'',
                    FunctionCall 2 (Some 0) (Some 3) ''add''
                      [Var 0 (Some 0) (Some 1) ''x'', Var 1 (Some 2) (Some 3) ''y''] []],
           inputs = [Var 0 (Some 0) (Some 1) ''x'', Var 1 (Some 2) (Some 3) ''y''],
           tokens = [\<lparr>tok_type = ''input-variable-name'', tok_start = Fin 0, tok_end = Fin 1,
                       tok_text = None\<rparr>,
                     \<lparr>tok_type = ''input-variable-name'', tok_start = Fin 2, tok_end = Fin 3,
                       tok_text = None\<rparr>]\<rparr>)
   \<and> is_Var (Var 0 (Some 0) (Some 1) ''x'') \<and> is_Var (Var 1 (Some 2) (Some 3) ''y'')
   \<and> sorted_wrt (<) (map node_id [Var 0 (Some 0) (Some 1) ''x'', Var 1 (Some 2) (Some 3) ''y''])"
proof -
  have e: "createNodeTree (binary ''add'' ''+'' (var 0 ''x'') (var 2 ''y'') ''x+y'') =
     Inr (FunctionCall 2 (Some 0) (Some 3) ''add''
            [Var 0 (Some 0) (Some 1) ''x'', Var 1 (Some 2) (Some 3) ''y''] [],
          \<lparr>nodeId = 3,
           nodes = [Var 0 (Some 0) (Some 1) ''x'', Var 1 (Some 2) (Some 3) ''y'',
                    FunctionCall 2 (Some 0) (Some 3) ''add''
                      [Var 0 (Some 0) (Some 1) ''x'', Var 1 (Some 2) (Some 3) ''y''] []],
           inputs = [Var 0 (Some 0) (Some 1) ''x'', Var 1 (Some 2) (Some 3) ''y''],
           tokens = [\<lparr>tok_type = ''input-variable-name'', tok_start = Fin 0, tok_end = Fin 1,
                       tok_text = None\<rparr>,
                     \<lparr>tok_type = ''input-variable-name'', tok_start = Fin 2, tok_end = Fin 3,
                       tok_text = None\<rparr>]\<rparr>)"
    by code_simp
  from inputs_only_vars[OF e] e show ?thesis by simp
qed

section \<open>The traversal\<close>

text \<open>
  Claim C3, as the code has it. The walk applies the visitor to the nodes of
  \<open>preorder\<close>, in that order: a node before its children, the children from left to right,
  with the children named above and every other kind as a leaf. On a built tree every node
  is visited at most once, and the nodes of the tree are those visited together with the
  hidden ones (below a pipe or a named argument, or among named arguments), which are
  not visited.
\<close>

theorem walk_visits_preorder:
  "walk root_node = Inr (preorder root_node)
   \<and> (createNodeTree c = Inr (root_node, st) \<longrightarrow>
        distinct (map node_id (preorder root_node))
        \<and> mset (all_nodes root_node) = mset (preorder root_node) + mset (hidden root_node))"
proof -
  have "distinct (map node_id (preorder root_node))" if "createNodeTree c = Inr (root_node, st)"
  proof -
    from createNodeTree_built[OF that] have "distinct (map node_id (all_nodes root_node))"
      by (simp add: built_def ids_ok_def)
    then show ?thesis by (rule visited_hidden_disjoint(1))
  qed
  then show ?thesis
    using walk_preorder[of root_node] all_nodes_split[of root_node] by blast
qed

theorem walk_visits_preorder_witness:
  "createNodeTree (call ''sum'' [num 4 ''1'', terminal (tok 5 5 '',''), var 6 ''x''] 7 ''sum(1,x)'') =
     Inr (FunctionCall 2 (Some 0) (Some 8) ''sum''
            [NumberNode 0 (Some 4) (Some 5) ''1'', Var 1 (Some 6) (Some 7) ''x''] [],
          \<lparr>nodeId = 3,
           nodes = [NumberNode 0 (Some 4) (Some 5) ''1'', Var 1 (Some 6) (Some 7) ''x'',
                    FunctionCall 2 (Some 0) (Some 8) ''sum''
                      [NumberNode 0 (Some 4) (Some 5) ''1'', Var 1 (Some 6) (Some 7) ''x''] []],
           inputs = [Var 1 (Some 6) (Some 7) ''x''],
           tokens = [\<lparr>tok_type = ''number-literal'', tok_start = Fin 4, tok_end = Fin 5,
                       tok_text = Some ''1''\<rparr>,
                     \<lparr>tok_type = ''input-variable-name'', tok_start = Fin 6, tok_end = Fin 7,
                       tok_text = None\<rparr>,
                     \<lparr>tok_type = ''function-name'', tok_start = Fin 0, tok_end = Fin 3,
                       tok_text = Some ''sum''\<rparr>]\<rparr>)
   \<and> walk (FunctionCall 2 (Some 0) (Some 8) ''sum''
            [NumberNode 0 (Some 4) (Some 5) ''1'', Var 1 (Some 6) (Some 7) ''x''] []) =
     Inr [FunctionCall 2 (Some 0) (Some 8) ''sum''
            [NumberNode 0 (Some 4) (Some 5) ''1'', Var 1 (Some 6) (Some 7) ''x''] [],
          NumberNode 0 (Some 4) (Some 5) ''1'', Var 1 (Some 6) (Some 7) ''x'']
   \<and> distinct (map node_id (preorder (FunctionCall 2 (Some 0) (Some 8) ''sum''
            [NumberNode 0 (Some 4) (Some 5) ''1'', Var 1 (Some 6) (Some 7) ''x''] [])))"
proof -
  let ?root = "FunctionCall 2 (Some 0) (Some 8) ''sum''
            [NumberNode 0 (Some 4) (Some 5) ''1'', Var 1 (Some 6) (Some 7) ''x''] []"
  have e: "createNodeTree (call ''sum'' [num 4 ''1'', terminal (tok 5 5 '',''), var 6 ''x''] 7 ''sum(1,x)'') =
     Inr (?root,
          \<lparr>nodeId = 3,
           nodes = [NumberNode 0 (Some 4) (Some 5) ''1'', Var 1 (Some 6) (Some 7) ''x'', ?root],
           inputs = [Var 1 (Some 6) (Some 7) ''x''],
           tokens = [\<lparr>tok_type = ''number-literal'', tok_start = Fin 4, tok_end = Fin 5,
                       tok_text = Some ''1''\<rparr>,
                     \<lparr>tok_type = ''input-variable-name'', tok_start = Fin 6, tok_end = Fin 7,
                       tok_text = None\<rparr>,
                     \<lparr>tok_type = ''function-name'', tok_start = Fin 0, tok_end = Fin 3,
                       tok_text = Some ''sum''\<rparr>]\<rparr>)"
    by code_simp
  from walk_visits_preorder[of ?root _ _] e show ?thesis by simp
qed

text \<open>
  Building \<open>x|y\<close> gives a pipe over two variables, three nodes; the walk visits the pipe
  only.
\<close>

theorem walk_skips_pipe_operands:
  "createNodeTree x_pipe_y =
     Inr (PipeOp 0 (Some 0) (Some 3) (Var 1 (Some 0) (Some 1) ''x'') (Var 2 (Some 2) (Some 3) ''y''),
          \<lparr>nodeId = 3,
           nodes = [Var 1 (Some 0) (Some 1) ''x'', Var 2 (Some 2) (Some 3) ''y'',
                    PipeOp 0 (Some 0) (Some 3) (Var 1 (Some 0) (Some 1) ''x'')
                      (Var 2 (Some 2) (Some 3) ''y'')],
           inputs = [Var 1 (Some 0) (Some 1) ''x'', Var 2 (Some 2) (Some 3) ''y''],
           tokens = [\<lparr>tok_type = ''input-variable-name'', tok_start = Fin 0, tok_end = Fin 1,
                       tok_text = None\<rparr>,
                     \<lparr>tok_type = ''input-variable-name'', tok_start = Fin 2, tok_end = Fin 3,
                       tok_text = None\<rparr>]\<rparr>)
   \<and> walk (PipeOp 0 (Some 0) (Some 3) (Var 1 (Some 0) (Some 1) ''x'')
              (Var 2 (Some 2) (Some 3) ''y'')) =
     Inr [PipeOp 0 (Some 0) (Some 3) (Var 1 (Some 0) (Some 1) ''x'')
              (Var 2 (Some 2) (Some 3) ''y'')]"
  by code_simp

text \<open>
  Claim C10, as the code has it. The switch of the walker pushes nothing for a pipe, so
  the walk of a pipe visits the pipe alone; and in a built tree the walk visits neither
  operand of any pipe of the tree. A pipe that lies below another pipe is one of those
  operands, so it is not visited itself.
\<close>

theorem walk_never_enters_PipeOp:
  "walk_switch (PipeOp i s e l r) stack = Inr stack
   \<and> walk (PipeOp i s e l r) = Inr [PipeOp i s e l r]
   \<and> (createNodeTree c = Inr (root_node, st) \<longrightarrow> walk root_node = Inr vs \<longrightarrow>
        PipeOp i s e l r \<in> set (all_nodes root_node) \<longrightarrow> l \<notin> set vs \<and> r \<notin> set vs)"
proof -
  have "l \<notin> set vs \<and> r \<notin> set vs"
    if c: "createNodeTree c = Inr (root_node, st)" and w: "walk root_node = Inr vs"
      and p: "PipeOp i s e l r \<in> set (all_nodes root_node)"
  proof -
    from createNodeTree_built[OF c] have "distinct (map node_id (all_nodes root_node))"
      by (simp add: built_def ids_ok_def)
    then have "node_id ` set (preorder root_node) \<inter> node_id ` set (hidden root_node) = {}"
      by (rule visited_hidden_disjoint(2))
    moreover have "vs = preorder root_node" using w walk_preorder[of root_node] by simp
    ultimately show ?thesis using operands_hidden[OF p] by blast
  qed
  then show ?thesis
    by (simp add: walk_preorder walk_switch_def)
qed

theorem walk_never_enters_PipeOp_witness:
  "createNodeTree x_pipe_y =
     Inr (PipeOp 0 (Some 0) (Some 3) (Var 1 (Some 0) (Some 1) ''x'') (Var 2 (Some 2) (Some 3) ''y''),
          \<lparr>nodeId = 3,
           nodes = [Var 1 (Some 0) (Some 1) ''x'', Var 2 (Some 2) (Some 3) ''y'',
                    PipeOp 0 (Some 0) (Some 3) (Var 1 (Some 0) (Some 1) ''x'')
                      (Var 2 (Some 2) (Some 3) ''y'')],
           inputs = [Var 1 (Some 0) (Some 1) ''x'', Var 2 (Some 2) (Some 3) ''y''],
           tokens = [\<lparr>tok_type = ''input-variable-name'', tok_start = Fin 0, tok_end = Fin 1,
                       tok_text = None\<rparr>,
                     \<lparr>tok_type = ''input-variable-name'', tok_start = Fin 2, tok_end = Fin 3,
                       tok_text = None\<rparr>]\<rparr>)
   \<and> walk (PipeOp 0 (Some 0) (Some 3) (Var 1 (Some 0) (Some 1) ''x'')
              (Var 2 (Some 2) (Some 3) ''y'')) =
     Inr [PipeOp 0 (Some 0) (Some 3) (Var 1 (Some 0) (Some 1) ''x'')
              (Var 2 (Some 2) (Some 3) ''y'')]
   \<and> Var 1 (Some 0) (Some 1) ''x'' \<notin> set [PipeOp 0 (Some 0) (Some 3)
         (Var 1 (Some 0) (Some 1) ''x'') (Var 2 (Some 2) (Some 3) ''y'')]
   \<and> Var 2 (Some 2) (Some 3) ''y'' \<notin> set [PipeOp 0 (Some 0) (Some 3)
         (Var 1 (Some 0) (Some 1) ''x'') (Var 2 (Some 2) (Some 3) ''y'')]"
proof -
  let ?x = "Var 1 (Some 0) (Some 1) ''x''"
  let ?y = "Var 2 (Some 2) (Some 3) ''y''"
  let ?root = "PipeOp 0 (Some 0) (Some 3) ?x ?y"
  let ?st = "\<lparr>nodeId = 3, nodes = [?x, ?y, ?root], inputs = [?x, ?y],
           tokens = [\<lparr>tok_type = ''input-variable-name'', tok_start = Fin 0, tok_end = Fin 1,
                       tok_text = None\<rparr>,
                     \<lparr>tok_type = ''input-variable-name'', tok_start = Fin 2, tok_end = Fin 3,
                       tok_text = None\<rparr>]\<rparr>"
  have e: "createNodeTree x_pipe_y = Inr (?root, ?st)"
    by code_simp
  have w: "walk ?root = Inr [?root]"
    using walk_never_enters_PipeOp[of 0 "Some 0" "Some 3" ?x ?y] by blast
  have p: "?root \<in> set (all_nodes ?root)" by simp
  from walk_never_enters_PipeOp[of 0 "Some 0" "Some 3" ?x ?y "[]" x_pipe_y ?root ?st "[?root]"]
    e w p
  have "?x \<notin> set [?root] \<and> ?y \<notin> set [?root]" by blast
  with e w show ?thesis by blast
qed

text \<open>
  Building \<open>x|y|z\<close> gives a pipe whose left operand is the pipe \<open>x|y\<close>; the walk visits the
  outer pipe only, so the inner pipe, a node of the tree, is not visited.
\<close>

theorem walk_skips_nested_PipeOp:
  "createNodeTree x_pipe_y_pipe_z =
     Inr (PipeOp 0 (Some 0) (Some 5)
            (PipeOp 1 (Some 0) (Some 3) (Var 2 (Some 0) (Some 1) ''x'')
               (Var 3 (Some 2) (Some 3) ''y''))
            (Var 4 (Some 4) (Some 5) ''z''),
          \<lparr>nodeId = 5,
           nodes = [Var 2 (Some 0) (Some 1) ''x'', Var 3 (Some 2) (Some 3) ''y'',
                    PipeOp 1 (Some 0) (Some 3) (Var 2 (Some 0) (Some 1) ''x'')
                      (Var 3 (Some 2) (Some 3) ''y''),
                    Var 4 (Some 4) (Some 5) ''z'',
                    PipeOp 0 (Some 0) (Some 5)
                      (PipeOp 1 (Some 0) (Some 3) (Var 2 (Some 0) (Some 1) ''x'')
                         (Var 3 (Some 2) (Some 3) ''y''))
                      (Var 4 (Some 4) (Some 5) ''z'')],
           inputs = [Var 2 (Some 0) (Some 1) ''x'', Var 3 (Some 2) (Some 3) ''y'',
                     Var 4 (Some 4) (Some 5) ''z''],
           tokens = [\<lparr>tok_type = ''input-variable-name'', tok_start = Fin 0, tok_end = Fin 1,
                       tok_text = None\<rparr>,
                     \<lparr>tok_type = ''input-variable-name'', tok_start = Fin 2, tok_end = Fin 3,
                       tok_text = None\<rparr>,
                     \<lparr>tok_type = ''input-variable-name'', tok_start = Fin 4, tok_end = Fin 5,
                       tok_text = None\<rparr>]\<rparr>)
   \<and> walk (PipeOp 0 (Some 0) (Some 5)
            (PipeOp 1 (Some 0) (Some 3) (Var 2 (Some 0) (Some 1) ''x'')
               (Var 3 (Some 2) (Some 3) ''y''))
            (Var 4 (Some 4) (Some 5) ''z'')) =
     Inr [PipeOp 0 (Some 0) (Some 5)
            (PipeOp 1 (Some 0) (Some 3) (Var 2 (Some 0) (Some 1) ''x'')
               (Var 3 (Some 2) (Some 3) ''y''))
            (Var 4 (Some 4) (Some 5) ''z'')]"
  by code_simp

end
